theory Spec2Isabelle
  imports Complex_Main "HOL-Library.List_Lexorder" "HOL-Library.Char_ord"
begin

section \<open>Drishyamitra: the photo classification and folder maintenance service\<close>

text \<open>
  A shallow embedding of \<^verbatim>\<open>service.py\<close> and of the upload route of
  \<^verbatim>\<open>routes.py\<close>.

  \<^item> The three Supabase tables the service reads and writes (\<^verbatim>\<open>persons\<close>,
    \<^verbatim>\<open>photos\<close>, \<^verbatim>\<open>photo_persons\<close>) and \<^verbatim>\<open>delivery_history\<close> are lists
    of rows in insertion order. A filtered select is \<open>filter\<close>, an insert appends, a
    filtered delete keeps the rows that do not match. Database calls are taken to succeed;
    the schema (keys, constraints) is not part of the sources and is not modelled.
  \<^item> The disk below \<^verbatim>\<open>UPLOAD_BASE_FOLDER\<close> is a map from (user id, folder name) to
    a directory, a directory being a list of (file name, content) entries; a missing
    directory is \<open>None\<close>. Files addressed by a plain path (the temporary file an upload is
    saved to) live in a separate map from paths to contents.
  \<^item> \<^verbatim>\<open>uuid.uuid4()\<close> reads a supply of identifiers held in the world.
  \<^item> DeepFace, the Groq vision model, werkzeug's \<^verbatim>\<open>secure_filename\<close>, the SMTP
    server and the I/O faults of the disk are an environment record: each call of the
    source that can raise asks the environment whether it does.
  \<^item> Exceptions are values: an operation returns \<open>Inl error\<close> or \<open>Inr result\<close>
    together with the world as it stands at that moment.
  \<^item> Embedding vectors are lists of reals; NumPy's floating point rounding is not
    modelled. Strings are ASCII: the character tables below are those of Python's
    \<^verbatim>\<open>str.lower\<close>, \<^verbatim>\<open>str.strip\<close>, \<^verbatim>\<open>str.title\<close> and of the
    regular expression class \<^verbatim>\<open>\w\<close> on code points below 128.
\<close>

subsection \<open>Python string helpers\<close>

definition ascii_uppercase :: string where
  "ascii_uppercase = ''ABCDEFGHIJKLMNOPQRSTUVWXYZ''"

definition ascii_lowercase :: string where
  "ascii_lowercase = ''abcdefghijklmnopqrstuvwxyz''"

definition digits :: string where
  "digits = ''0123456789''"

definition lower_char :: "char \<Rightarrow> char" where
  "lower_char c = (case map_of (zip ascii_uppercase ascii_lowercase) c of
                     Some d \<Rightarrow> d | None \<Rightarrow> c)"

definition upper_char :: "char \<Rightarrow> char" where
  "upper_char c = (case map_of (zip ascii_lowercase ascii_uppercase) c of
                     Some d \<Rightarrow> d | None \<Rightarrow> c)"

definition py_lower :: "string \<Rightarrow> string" where
  "py_lower s = map lower_char s"

definition is_space :: "char \<Rightarrow> bool" where
  "is_space c = (c \<in> set [CHR '' '', CHR 0x09, CHR 0x0A, CHR 0x0B, CHR 0x0C, CHR 0x0D,
                           CHR 0x1C, CHR 0x1D, CHR 0x1E, CHR 0x1F])"

definition is_word :: "char \<Rightarrow> bool" where
  "is_word c = (c \<in> set (digits @ ascii_uppercase @ ''_'' @ ascii_lowercase))"

definition is_cased :: "char \<Rightarrow> bool" where
  "is_cased c = (c \<in> set (ascii_uppercase @ ascii_lowercase))"

text \<open>\<^verbatim>\<open>s.strip(chars)\<close>: drop the leading and the trailing characters of the class.\<close>

definition strip_chars :: "(char \<Rightarrow> bool) \<Rightarrow> string \<Rightarrow> string" where
  "strip_chars P s = rev (dropWhile P (rev (dropWhile P s)))"

definition py_strip :: "string \<Rightarrow> string" where
  "py_strip s = strip_chars is_space s"

text \<open>\<^verbatim>\<open>s.title()\<close>: a cased character is upper-cased after an uncased one (or at the
  start) and lower-cased after a cased one.\<close>

fun title_from :: "bool \<Rightarrow> string \<Rightarrow> string" where
  "title_from prev [] = []"
| "title_from prev (c # cs) =
     (if is_cased c then (if prev then lower_char c else upper_char c) # title_from True cs
      else c # title_from False cs)"

definition py_title :: "string \<Rightarrow> string" where
  "py_title s = title_from False s"

definition ends_with :: "string \<Rightarrow> string \<Rightarrow> bool" where
  "ends_with s suf = (length suf \<le> length s \<and> drop (length s - length suf) s = suf)"

subsection \<open>Configuration (\<^verbatim>\<open>config.py\<close>)\<close>

definition ALLOWED_EXTENSIONS :: "string list" where
  "ALLOWED_EXTENSIONS = [''png'', ''jpg'', ''jpeg'', ''webp'', ''gif'']"

definition DEEPFACE_DISTANCE_THRESHOLD :: real where
  "DEEPFACE_DISTANCE_THRESHOLD = 0.40"

subsection \<open>Rows, the world and the environment\<close>

type_synonym vec = "real list"
type_synonym bytes = string

text \<open>The JSON value of the \<^verbatim>\<open>embedding\<close> column: null, a bare list, or an object
  whose \<^verbatim>\<open>"vector"\<close> key, when present, holds the list.\<close>

datatype embedding_json = Null | Vector vec | Dict "vec option"

record person =
  p_id :: string
  p_user_id :: string
  p_name :: string
  p_folder_name :: string
  p_embedding :: embedding_json

record photo =
  ph_id :: string
  ph_user_id :: string
  ph_filename :: string
  ph_filepath :: string

record photo_person =
  pp_photo_id :: string
  pp_person_id :: string

record delivery =
  d_user_id :: string
  d_person_id :: string
  d_recipient_email :: string
  d_photo_count :: nat
  d_status :: string
  d_message :: string

text \<open>A message handed to the SMTP server: its recipient and its attachments (file name
  and payload). The headers and the text part are left out.\<close>

record email =
  m_to :: string
  m_attachments :: "(string \<times> bytes) list"

type_synonym directory = "(string \<times> bytes) list"

record world =
  persons :: "person list"
  photos :: "photo list"
  photo_persons :: "photo_person list"
  delivery_history :: "delivery list"
  outbox :: "email list"
  user_dirs :: "string set"
  folders :: "string \<times> string \<Rightarrow> directory option"
  files :: "string \<Rightarrow> bytes option"
  uuid_src :: "nat \<Rightarrow> string"
  uuid_ctr :: nat

datatype error = ValueError | FileNotFoundError | SameFileError | OSError

record env =
  deepface :: "string \<Rightarrow> vec option list option"
  groq :: "string \<Rightarrow> string option"
  secure_filename :: "string \<Rightarrow> string"
  copy_fails :: "string \<times> string \<times> string \<Rightarrow> bool"
  remove_fails :: "string \<times> string \<times> string \<Rightarrow> bool"
  open_fails :: "string \<times> string \<times> string \<Rightarrow> bool"
  smtp_error :: "string option"

text \<open>\<^verbatim>\<open>str(uuid.uuid4())\<close>: the next identifier of the supply.\<close>

definition uuid4 :: "world \<Rightarrow> string \<times> world" where
  "uuid4 w = (uuid_src w (uuid_ctr w), w\<lparr>uuid_ctr := Suc (uuid_ctr w)\<rparr>)"

subsection \<open>Helpers\<close>


definition dot :: "vec \<Rightarrow> vec \<Rightarrow> real" where
  "dot a b = sum_list (map (\<lambda>(x, y). x * y) (zip a b))"

definition norm2 :: "vec \<Rightarrow> real" where
  "norm2 a = sqrt (sum_list (map (\<lambda>x. x * x) a))"

text \<open>\<^verbatim>\<open>np.dot\<close> raises ValueError on vectors of different lengths; the conditional
  expression tests \<open>d\<close> first, so a zero norm gives 0.0 before the product is computed.\<close>

definition cosine_similarity :: "vec \<Rightarrow> vec \<Rightarrow> error + real" where
  "cosine_similarity a b =
     (let d = norm2 a * norm2 b
      in if d = 0 then Inr 0
         else if length a \<noteq> length b then Inl ValueError
         else Inr (dot a b / d))"

definition user_root :: "world \<Rightarrow> string \<Rightarrow> world" where
  "user_root w user_id = w\<lparr>user_dirs := insert user_id (user_dirs w)\<rparr>"

definition folder_disk :: "world \<Rightarrow> string \<Rightarrow> string \<Rightarrow> world" where
  "folder_disk w user_id folder_name =
     (let w1 = user_root w user_id
      in case folders w1 (user_id, folder_name) of
           Some d \<Rightarrow> w1
         | None \<Rightarrow> w1\<lparr>folders := (folders w1)((user_id, folder_name) := Some [])\<rparr>)"

definition is_image :: "string \<Rightarrow> bool" where
  "is_image f = (\<exists>e \<in> set ALLOWED_EXTENSIONS. ends_with (py_lower f) e)"

text \<open>\<^verbatim>\<open>list_images\<close> of the directory of a folder; a missing directory lists as empty.\<close>

definition list_images :: "world \<Rightarrow> string \<times> string \<Rightarrow> string list" where
  "list_images w folder =
     (case folders w folder of
        None \<Rightarrow> []
      | Some d \<Rightarrow> sort (filter is_image (map fst d)))"

subsection \<open>Scene label fallback\<close>

text \<open>Lines 113 to 115 of \<^verbatim>\<open>groq_describe_for_folder\<close>: the slug of the model's
  reply.\<close>

definition groq_slug :: "string \<Rightarrow> string" where
  "groq_slug content =
     (let raw = py_lower (py_strip content);
          slug = strip_chars (\<lambda>c. c = CHR ''_'')
                   (take 40 (map (\<lambda>c. if is_word c then c else CHR ''_'') raw))
      in if slug = [] then ''uncategorised'' else slug)"

text \<open>Reading the image or calling the model may raise; every exception gives the
  fallback label.\<close>

definition groq_describe_for_folder :: "env \<Rightarrow> world \<Rightarrow> string \<Rightarrow> string" where
  "groq_describe_for_folder e w image_path =
     (case files w image_path of
        None \<Rightarrow> ''uncategorised''
      | Some b \<Rightarrow> (case groq e image_path of
                    None \<Rightarrow> ''uncategorised''
                  | Some content \<Rightarrow> groq_slug content))"

definition find_or_create_scene_person :: "world \<Rightarrow> string \<Rightarrow> string \<Rightarrow> person \<times> world" where
  "find_or_create_scene_person w user_id slug =
     (case filter (\<lambda>p. p_user_id p = user_id \<and> p_folder_name p = slug) (persons w) of
        p # ps \<Rightarrow> (p, w)
      | [] \<Rightarrow>
         (let (pid, w1) = uuid4 w;
              row = \<lparr>p_id = pid, p_user_id = user_id,
                     p_name = py_title (map (\<lambda>c. if c = CHR ''_'' then CHR '' '' else c) slug),
                     p_folder_name = slug, p_embedding = Null\<rparr>;
              w2 = w1\<lparr>persons := persons w1 @ [row]\<rparr>
          in (row, folder_disk w2 user_id slug)))"

subsection \<open>Face recognition\<close>

text \<open>Lines 150 to 156 of \<^verbatim>\<open>find_matching_person\<close>: the vector a row is compared by;
  \<open>None\<close> where the loop says \<^verbatim>\<open>continue\<close>.\<close>

definition stored_vector :: "embedding_json \<Rightarrow> vec option" where
  "stored_vector j =
     (case j of
        Null \<Rightarrow> None
      | Vector v \<Rightarrow> (if v = [] then None else Some v)
      | Dict None \<Rightarrow> None
      | Dict (Some v) \<Rightarrow> (if v = [] then None else Some v))"

fun match_loop :: "vec \<Rightarrow> person list \<Rightarrow> person option \<Rightarrow> real \<Rightarrow> error + (person option \<times> real)" where
  "match_loop embedding [] best score = Inr (best, score)"
| "match_loop embedding (p # ps) best score =
     (case stored_vector (p_embedding p) of
        None \<Rightarrow> match_loop embedding ps best score
      | Some emb \<Rightarrow>
          (case cosine_similarity embedding emb of
             Inl err \<Rightarrow> Inl err
           | Inr s \<Rightarrow> if s > score then match_loop embedding ps (Some p) s
                      else match_loop embedding ps best score))"

definition find_matching_person :: "world \<Rightarrow> string \<Rightarrow> vec \<Rightarrow> error + person option" where
  "find_matching_person w user_id embedding =
     (let rows = filter (\<lambda>p. p_user_id p = user_id) (persons w);
          thresh = 1 - DEEPFACE_DISTANCE_THRESHOLD
      in case match_loop embedding rows None (- 1) of
           Inl err \<Rightarrow> Inl err
         | Inr (best, score) \<Rightarrow> Inr (if score \<ge> thresh then best else None))"

definition create_face_person :: "world \<Rightarrow> string \<Rightarrow> vec \<Rightarrow> person \<times> world" where
  "create_face_person w user_id embedding =
     (let (pid, w1) = uuid4 w;
          fname = ''person_'' @ take 8 pid;
          row = \<lparr>p_id = pid, p_user_id = user_id, p_name = ''Unknown'',
                 p_folder_name = fname, p_embedding = Dict (Some embedding)\<rparr>;
          w2 = w1\<lparr>persons := persons w1 @ [row]\<rparr>
      in (row, folder_disk w2 user_id fname))"

subsection \<open>Upload pipeline\<close>

definition dir_of :: "world \<Rightarrow> string \<times> string \<Rightarrow> directory" where
  "dir_of w folder = (case folders w folder of None \<Rightarrow> [] | Some d \<Rightarrow> d)"

definition file_exists :: "world \<Rightarrow> string \<times> string \<Rightarrow> string \<Rightarrow> bool" where
  "file_exists w folder filename = (filename \<in> fst ` set (dir_of w folder))"

text \<open>Writing a file into a directory: an existing entry of that name is overwritten in
  place, a new one is added.\<close>

definition put_file :: "directory \<Rightarrow> string \<Rightarrow> bytes \<Rightarrow> directory" where
  "put_file d filename b =
     (if filename \<in> fst ` set d
      then map (\<lambda>(n, c). if n = filename then (n, b) else (n, c)) d
      else d @ [(filename, b)])"

definition remove_file :: "directory \<Rightarrow> string \<Rightarrow> directory" where
  "remove_file d filename = filter (\<lambda>(n, c). n \<noteq> filename) d"

definition copy_to_folder ::
    "env \<Rightarrow> world \<Rightarrow> string \<Rightarrow> string \<Rightarrow> string \<Rightarrow> string \<Rightarrow> (error + unit) \<times> world" where
  "copy_to_folder e w user_id folder_name src filename =
     (let w1 = folder_disk w user_id folder_name;
          dest = (user_id, folder_name)
      in if file_exists w1 dest filename then (Inr (), w1)
         else (case files w1 src of
                 None \<Rightarrow> (Inl FileNotFoundError, w1)
               | Some b \<Rightarrow>
                   if copy_fails e (user_id, folder_name, filename) then (Inl OSError, w1)
                   else (Inr (), w1\<lparr>folders := (folders w1)(dest :=
                                       Some (put_file (dir_of w1 dest) filename b))\<rparr>)))"

definition link :: "world \<Rightarrow> string \<Rightarrow> string \<Rightarrow> world" where
  "link w photo_id person_id =
     w\<lparr>photo_persons := photo_persons w @ [\<lparr>pp_photo_id = photo_id, pp_person_id = person_id\<rparr>]\<rparr>"

record person_ref =
  ref_name :: string
  ref_folder :: string
  ref_id :: string

definition ref_of :: "person \<Rightarrow> person_ref" where
  "ref_of p = \<lparr>ref_name = p_name p, ref_folder = p_folder_name p, ref_id = p_id p\<rparr>"

record upload_result =
  r_filename :: string
  r_faces_detected :: nat
  r_persons :: "person_ref list"
  r_photo_id :: string
  r_method :: string

definition extract_embeddings :: "env \<Rightarrow> string \<Rightarrow> vec option list" where
  "extract_embeddings e image_path = (case deepface e image_path of None \<Rightarrow> [] | Some fs \<Rightarrow> fs)"

text \<open>The loop over the faces of one image (lines 192 to 203): \<open>seen\<close> is the set of
  group ids already attached, \<open>acc\<close> is \<^verbatim>\<open>result["persons"]\<close>.\<close>

fun face_loop ::
    "env \<Rightarrow> string \<Rightarrow> string \<Rightarrow> string \<Rightarrow> string \<Rightarrow> vec option list \<Rightarrow> string set \<Rightarrow>
     person_ref list \<Rightarrow> world \<Rightarrow> (error + person_ref list) \<times> world" where
  "face_loop e user_id image_path filename photo_id [] seen acc w = (Inr acc, w)"
| "face_loop e user_id image_path filename photo_id (face # faces) seen acc w =
     (let emb = (case face of None \<Rightarrow> [] | Some v \<Rightarrow> v)
      in if emb = [] then face_loop e user_id image_path filename photo_id faces seen acc w
         else (case find_matching_person w user_id emb of
                 Inl err \<Rightarrow> (Inl err, w)
               | Inr found \<Rightarrow>
                  (let (person, w1) = (case found of
                                         Some p \<Rightarrow> (p, w)
                                       | None \<Rightarrow> create_face_person w user_id emb)
                   in if p_id person \<in> seen
                      then face_loop e user_id image_path filename photo_id faces seen acc w1
                      else (case copy_to_folder e w1 user_id (p_folder_name person)
                                   image_path filename of
                              (Inl err, w2) \<Rightarrow> (Inl err, w2)
                            | (Inr u, w2) \<Rightarrow>
                                face_loop e user_id image_path filename photo_id faces
                                  (insert (p_id person) seen) (acc @ [ref_of person])
                                  (link w2 photo_id (p_id person))))))"

definition process_uploaded_image ::
    "env \<Rightarrow> world \<Rightarrow> string \<Rightarrow> string \<Rightarrow> string \<Rightarrow> (error + upload_result) \<times> world" where
  "process_uploaded_image e w user_id image_path filename =
     (let (photo_id, w1) = uuid4 w;
          w2 = w1\<lparr>photos := photos w1 @ [\<lparr>ph_id = photo_id, ph_user_id = user_id,
                                           ph_filename = filename, ph_filepath = filename\<rparr>]\<rparr>;
          faces = extract_embeddings e image_path
      in if faces \<noteq> []
         then (case face_loop e user_id image_path filename photo_id faces {} [] w2 of
                 (Inl err, w3) \<Rightarrow> (Inl err, w3)
               | (Inr ps, w3) \<Rightarrow>
                   (Inr \<lparr>r_filename = filename, r_faces_detected = length faces,
                         r_persons = ps, r_photo_id = photo_id, r_method = ''deepface''\<rparr>, w3))
         else (let slug = groq_describe_for_folder e w2 image_path;
                   (person, w3) = find_or_create_scene_person w2 user_id slug
               in case copy_to_folder e w3 user_id (p_folder_name person) image_path filename of
                    (Inl err, w4) \<Rightarrow> (Inl err, w4)
                  | (Inr u, w4) \<Rightarrow>
                      (Inr \<lparr>r_filename = filename, r_faces_detected = length faces,
                            r_persons = [ref_of person], r_photo_id = photo_id,
                            r_method = ''groq_vision''\<rparr>,
                       link w4 photo_id (p_id person))))"

subsection \<open>Folder management\<close>

definition links_of_photo :: "world \<Rightarrow> string \<Rightarrow> photo_person list" where
  "links_of_photo w photo_id = filter (\<lambda>l. pp_photo_id l = photo_id) (photo_persons w)"

text \<open>The loop of \<^verbatim>\<open>delete_folder\<close> (lines 287 to 291): a photo row with no remaining
  link is deleted.\<close>

fun delete_unlinked :: "string list \<Rightarrow> world \<Rightarrow> world" where
  "delete_unlinked [] w = w"
| "delete_unlinked (pid # pids) w =
     delete_unlinked pids
       (if links_of_photo w pid = []
        then w\<lparr>photos := filter (\<lambda>ph. ph_id ph \<noteq> pid) (photos w)\<rparr>
        else w)"

definition delete_folder :: "world \<Rightarrow> string \<Rightarrow> string \<Rightarrow> bool \<times> world" where
  "delete_folder w person_id user_id =
     (case filter (\<lambda>p. p_id p = person_id \<and> p_user_id p = user_id) (persons w) of
        [] \<Rightarrow> (False, w)
      | r # rs \<Rightarrow>
         (let fname = p_folder_name r;
              photo_ids = map pp_photo_id
                            (filter (\<lambda>l. pp_person_id l = person_id) (photo_persons w));
              w1 = w\<lparr>photo_persons :=
                       filter (\<lambda>l. pp_person_id l \<noteq> person_id) (photo_persons w)\<rparr>;
              w2 = delete_unlinked photo_ids w1;
              w3 = w2\<lparr>persons := filter (\<lambda>p. p_id p \<noteq> person_id) (persons w2)\<rparr>;
              w4 = user_root w3 user_id
          in (True, w4\<lparr>folders := (folders w4)((user_id, fname) := None)\<rparr>)))"

text \<open>The loop of \<^verbatim>\<open>delete_photo_from_folder\<close> (lines 318 to 325) over the photo rows
  selected before it starts.\<close>

fun unlink_photos :: "string \<Rightarrow> photo list \<Rightarrow> world \<Rightarrow> world" where
  "unlink_photos person_id [] w = w"
| "unlink_photos person_id (ph # phs) w =
     (let w1 = w\<lparr>photo_persons :=
                   filter (\<lambda>l. \<not> (pp_photo_id l = ph_id ph \<and> pp_person_id l = person_id))
                     (photo_persons w)\<rparr>
      in unlink_photos person_id phs
           (if links_of_photo w1 (ph_id ph) = []
            then w1\<lparr>photos := filter (\<lambda>r. ph_id r \<noteq> ph_id ph) (photos w1)\<rparr>
            else w1))"

definition delete_photo_from_folder ::
    "env \<Rightarrow> world \<Rightarrow> string \<Rightarrow> string \<Rightarrow> string \<Rightarrow> bool \<times> world" where
  "delete_photo_from_folder e w person_id user_id filename =
     (case filter (\<lambda>p. p_id p = person_id \<and> p_user_id p = user_id) (persons w) of
        [] \<Rightarrow> (False, w)
      | r # rs \<Rightarrow>
         (let folder = (user_id, p_folder_name r);
              w1 = folder_disk w user_id (p_folder_name r)
          in if file_exists w1 folder filename \<and> remove_fails e (user_id, p_folder_name r, filename)
             then (False, w1)
             else (let w2 = (if file_exists w1 folder filename
                             then w1\<lparr>folders := (folders w1)(folder :=
                                       Some (remove_file (dir_of w1 folder) filename))\<rparr>
                             else w1);
                       photos_rows = filter (\<lambda>ph. ph_user_id ph = user_id \<and> ph_filename ph = filename)
                                       (photos w2)
                   in (True, unlink_photos person_id photos_rows w2))))"

text \<open>\<^verbatim>\<open>shutil.copy2\<close> raises SameFileError when source and destination are the same
  file, and overwrites an existing destination otherwise.\<close>

definition move_photo_to_folder ::
    "env \<Rightarrow> world \<Rightarrow> string \<Rightarrow> string \<Rightarrow> string \<Rightarrow> string \<Rightarrow> bool \<Rightarrow> (error + bool) \<times> world" where
  "move_photo_to_folder e w user_id src_person_id dest_person_id filename keep_in_source =
     (case (filter (\<lambda>p. p_id p = src_person_id \<and> p_user_id p = user_id) (persons w),
            filter (\<lambda>p. p_id p = dest_person_id \<and> p_user_id p = user_id) (persons w)) of
        ([], ds) \<Rightarrow> (Inr False, w)
      | (s # ss, []) \<Rightarrow> (Inr False, w)
      | (s # ss, d # ds) \<Rightarrow>
         (let src_dir = (user_id, p_folder_name s);
              dest_dir = (user_id, p_folder_name d);
              w1 = folder_disk (folder_disk w user_id (p_folder_name s)) user_id (p_folder_name d)
          in case map_of (dir_of w1 src_dir) filename of
               None \<Rightarrow> (Inr False, w1)
             | Some b \<Rightarrow>
                 if src_dir = dest_dir then (Inl SameFileError, w1)
                 else if copy_fails e (user_id, p_folder_name d, filename) then (Inl OSError, w1)
                 else
                  (let w2 = w1\<lparr>folders := (folders w1)(dest_dir :=
                                   Some (put_file (dir_of w1 dest_dir) filename b))\<rparr>
                   in if \<not> keep_in_source \<and> remove_fails e (user_id, p_folder_name s, filename)
                      then (Inl OSError, w2)
                      else
                       (let w3 = (if \<not> keep_in_source
                                  then w2\<lparr>folders := (folders w2)(src_dir :=
                                            Some (remove_file (dir_of w2 src_dir) filename))\<rparr>
                                  else w2)
                        in case filter (\<lambda>ph. ph_user_id ph = user_id \<and> ph_filename ph = filename)
                                  (photos w3) of
                             [] \<Rightarrow> (Inr True, w3)
                           | ph # phs \<Rightarrow>
                              (let pid = ph_id ph;
                                   w4 = (if filter (\<lambda>l. pp_photo_id l = pid \<and>
                                                         pp_person_id l = dest_person_id)
                                              (photo_persons w3) = []
                                         then link w3 pid dest_person_id else w3);
                                   w5 = (if \<not> keep_in_source
                                         then w4\<lparr>photo_persons :=
                                                filter (\<lambda>l. \<not> (pp_photo_id l = pid \<and>
                                                               pp_person_id l = src_person_id))
                                                  (photo_persons w4)\<rparr>
                                         else w4)
                               in (Inr True, w5))))))"

subsection \<open>Email\<close>

definition log_delivery ::
    "world \<Rightarrow> string \<Rightarrow> string \<Rightarrow> string \<Rightarrow> nat \<Rightarrow> string \<Rightarrow> string \<Rightarrow> world" where
  "log_delivery w user_id person_id recipient n status message =
     w\<lparr>delivery_history := delivery_history w @
         [\<lparr>d_user_id = user_id, d_person_id = person_id, d_recipient_email = recipient,
           d_photo_count = n, d_status = status, d_message = message\<rparr>]\<rparr>"

text \<open>The loop that attaches files (lines 522 to 531): a file that cannot be opened is
  skipped. The attachments made stand for the counter \<^verbatim>\<open>attached\<close>, which goes up by one
  with each of them.\<close>

fun attach_files ::
    "env \<Rightarrow> world \<Rightarrow> string \<times> string \<Rightarrow> string list \<Rightarrow> (string \<times> bytes) list \<Rightarrow> (string \<times> bytes) list" where
  "attach_files e w folder [] parts = parts"
| "attach_files e w folder (f # fs) parts =
     (case map_of (dir_of w folder) f of
        None \<Rightarrow> attach_files e w folder fs parts
      | Some b \<Rightarrow>
          if open_fails e (fst folder, snd folder, f) then attach_files e w folder fs parts
          else attach_files e w folder fs (parts @ [(f, b)]))"

datatype email_result = Failure string | Success nat

definition send_photos_by_email ::
    "env \<Rightarrow> world \<Rightarrow> string \<Rightarrow> string \<Rightarrow> string \<Rightarrow> email_result \<times> world" where
  "send_photos_by_email e w user_id person_id recipient_email =
     (case filter (\<lambda>p. p_id p = person_id) (persons w) of
        [] \<Rightarrow> (Failure ''Person not found'', w)
      | person # rs \<Rightarrow>
         (let w1 = folder_disk w user_id (p_folder_name person);
              fdir = (user_id, p_folder_name person);
              files = list_images w1 fdir
          in if files = [] then (Failure ''No photos found'', w1)
             else
              (let parts = attach_files e w1 fdir (take 10 files) [];
                   attached = length parts
               in case smtp_error e of
                    Some err \<Rightarrow>
                      (Failure err,
                       log_delivery w1 user_id person_id recipient_email attached ''failed'' err)
                  | None \<Rightarrow>
                      (Success attached,
                       log_delivery
                         (w1\<lparr>outbox := outbox w1 @
                               [\<lparr>m_to = recipient_email, m_attachments = parts\<rparr>]\<rparr>)
                         user_id person_id recipient_email attached ''sent'' []))))"

subsection \<open>The upload route (\<^verbatim>\<open>routes.py\<close>)\<close>




subsection \<open>Example data\<close>

text \<open>An environment without faults whose scene labeler answers every image with
  \<^verbatim>\<open>Beach Sunset!!\<close> and whose face embedder finds no face, an empty world, and a
  world with one folder of twelve images.\<close>

definition env0 :: env where
  "env0 = \<lparr>deepface = (\<lambda>p. None), groq = (\<lambda>p. Some ''Beach Sunset!!''),
            secure_filename = (\<lambda>s. s), copy_fails = (\<lambda>d. False), remove_fails = (\<lambda>d. False),
            open_fails = (\<lambda>d. False), smtp_error = None\<rparr>"

definition world0 :: world where
  "world0 = \<lparr>persons = [], photos = [], photo_persons = [], delivery_history = [], outbox = [],
              user_dirs = {}, folders = (\<lambda>k. None), files = (\<lambda>p. None),
              uuid_src = (\<lambda>n. if n = 0 then ''aaaaaaaa-0000''
                              else if n = 1 then ''bbbbbbbb-0000'' else ''cccccccc-0000''),
              uuid_ctr = 0\<rparr>"

definition trip :: person where
  "trip = \<lparr>p_id = ''g1'', p_user_id = ''u1'', p_name = ''Trip'', p_folder_name = ''trip'',
            p_embedding = Null\<rparr>"

definition album_world :: world where
  "album_world = world0\<lparr>persons := [trip], user_dirs := {''u1''},
     folders := (\<lambda>k. if k = (''u1'', ''trip'')
                      then Some (map (\<lambda>c. (c # ''.jpg'', ''data'')) ''lkjihgfedcba'') else None)\<rparr>"

subsection \<open>Notions used in the statements\<close>

text \<open>The label as \<^verbatim>\<open>groq_describe_for_folder\<close> has it before the final
  \<^verbatim>\<open>strip("_")\<close>, and the shape of a folder key made from a label.\<close>

definition sanitize :: "string \<Rightarrow> string" where
  "sanitize content = take 40 (map (\<lambda>c. if is_word c then c else CHR ''_'') (py_lower (py_strip content)))"

definition is_slug :: "string \<Rightarrow> bool" where
  "is_slug s = (s \<noteq> [] \<and> length s \<le> 40 \<and> (\<forall>c \<in> set s. is_word c \<and> c \<notin> set ascii_uppercase) \<and>
                hd s \<noteq> CHR ''_'' \<and> last s \<noteq> CHR ''_'')"

text \<open>An empty world with one uploaded file that has no face.\<close>

definition beach_world :: world where
  "beach_world = world0\<lparr>files := (\<lambda>p. if p = ''u1/b.jpg'' then Some ''data'' else None)\<rparr>"


definition candidates :: "world \<Rightarrow> string \<Rightarrow> person list" where
  "candidates w user_id =
     filter (\<lambda>p. p_user_id p = user_id \<and> stored_vector (p_embedding p) \<noteq> None) (persons w)"


text \<open>The membership row made for an attached group, and the order in which the
  directories of one world extend those of another: names are kept, and directories without
  duplicate names stay so.\<close>

definition link_row :: "string \<Rightarrow> person_ref \<Rightarrow> photo_person" where
  "link_row photo_id r = \<lparr>pp_photo_id = photo_id, pp_person_id = ref_id r\<rparr>"

definition disk_grows :: "world \<Rightarrow> world \<Rightarrow> bool" where
  "disk_grows w w' =
     (\<forall>k. (distinct (map fst (dir_of w k)) \<longrightarrow> distinct (map fst (dir_of w' k))) \<and>
          fst ` set (dir_of w k) \<subseteq> fst ` set (dir_of w' k))"

text \<open>An embedder that finds the same face twice, and a world with a manually created
  folder and two face groups.\<close>

definition twin_env :: env where
  "twin_env = env0\<lparr>deepface := (\<lambda>p. Some [Some [1, 0], Some [1, 0]])\<rparr>"

definition alice :: person where
  "alice = \<lparr>p_id = ''g2'', p_user_id = ''u1'', p_name = ''Alice'', p_folder_name = ''person_11111111'',
             p_embedding = Dict (Some [1, 0])\<rparr>"




text \<open>An Image whose membership links all point to one group (and that has one); the
  Image rows without any link; the membership table after a move has handled the photo
  row \<open>pid\<close>; and the number of links between a photo and a group.\<close>

definition only_in_group :: "world \<Rightarrow> string \<Rightarrow> photo \<Rightarrow> bool" where
  "only_in_group w person_id ph =
     (links_of_photo w (ph_id ph) \<noteq> [] \<and>
      (\<forall>l \<in> set (links_of_photo w (ph_id ph)). pp_person_id l = person_id))"

definition orphans :: "world \<Rightarrow> photo list" where
  "orphans w = filter (\<lambda>ph. links_of_photo w (ph_id ph) = []) (photos w)"

definition relink :: "photo_person list \<Rightarrow> string \<Rightarrow> string \<Rightarrow> string \<Rightarrow> bool \<Rightarrow> photo_person list" where
  "relink links pid src dest keep =
     (let ensured = (if filter (\<lambda>l. pp_photo_id l = pid \<and> pp_person_id l = dest) links = []
                     then links @ [\<lparr>pp_photo_id = pid, pp_person_id = dest\<rparr>] else links)
      in if keep then ensured
         else filter (\<lambda>l. \<not> (pp_photo_id l = pid \<and> pp_person_id l = src)) ensured)"


text \<open>A world with two groups: two photos only in the first, a third in both.\<close>

definition shared_world :: world where
  "shared_world = world0\<lparr>
     persons := [trip, alice],
     photos := [\<lparr>ph_id = ''p1'', ph_user_id = ''u1'', ph_filename = ''a.jpg'', ph_filepath = ''a.jpg''\<rparr>,
                \<lparr>ph_id = ''p2'', ph_user_id = ''u1'', ph_filename = ''b.jpg'', ph_filepath = ''b.jpg''\<rparr>,
                \<lparr>ph_id = ''p3'', ph_user_id = ''u1'', ph_filename = ''c.jpg'', ph_filepath = ''c.jpg''\<rparr>],
     photo_persons := [\<lparr>pp_photo_id = ''p1'', pp_person_id = ''g1''\<rparr>,
                       \<lparr>pp_photo_id = ''p2'', pp_person_id = ''g1''\<rparr>,
                       \<lparr>pp_photo_id = ''p3'', pp_person_id = ''g1''\<rparr>,
                       \<lparr>pp_photo_id = ''p3'', pp_person_id = ''g2''\<rparr>],
     user_dirs := {''u1''},
     folders := (\<lambda>k. if k = (''u1'', ''trip'')
                      then Some [(''a.jpg'', ''A''), (''b.jpg'', ''B''), (''c.jpg'', ''C'')]
                      else if k = (''u1'', ''person_11111111'') then Some [(''c.jpg'', ''C'')]
                      else None)\<rparr>"


section \<open>Properties\<close>

subsection \<open>Directories and listings\<close>

lemma folder_disk_tables [simp]:
  "persons (folder_disk w u f) = persons w"
  "photos (folder_disk w u f) = photos w"
  "photo_persons (folder_disk w u f) = photo_persons w"
  "delivery_history (folder_disk w u f) = delivery_history w"
  "outbox (folder_disk w u f) = outbox w"
  "files (folder_disk w u f) = files w"
  "uuid_src (folder_disk w u f) = uuid_src w"
  "uuid_ctr (folder_disk w u f) = uuid_ctr w"
  by (simp_all add: folder_disk_def user_root_def Let_def split: option.splits)

lemma dir_of_folder_disk [simp]: "dir_of (folder_disk w u f) k = dir_of w k"
  by (simp add: folder_disk_def user_root_def dir_of_def Let_def split: option.splits)

lemma list_images_dir_of: "list_images w k = sort (filter is_image (map fst (dir_of w k)))"
  by (simp add: list_images_def dir_of_def split: option.splits)

lemma list_images_folder_disk [simp]: "list_images (folder_disk w u f) k = list_images w k"
  by (simp add: list_images_dir_of)

lemma set_list_images: "set (list_images w k) \<subseteq> fst ` set (dir_of w k)"
  by (auto simp: list_images_dir_of)

subsection \<open>Email: at most ten attachments\<close>

lemma attach_files_length: "length (attach_files e w k fs parts) \<le> length parts + length fs"
proof (induction fs arbitrary: parts)
  case Nil
  then show ?case by simp
next
  case (Cons f fs)
  have a: "length (attach_files e w k fs parts) \<le> length parts + length fs"
    by (rule Cons.IH)
  have b: "length (attach_files e w k fs (parts @ [x])) \<le> Suc (length parts) + length fs" for x
    using Cons.IH [of "parts @ [x]"] by simp
  show ?case using a b by (auto split: option.splits intro: le_SucI)
qed

lemma attach_files_names:
  "set fs \<subseteq> fst ` set (dir_of w k) \<Longrightarrow>
   map fst (attach_files e w k fs parts) =
     map fst parts @ filter (\<lambda>f. \<not> open_fails e (fst k, snd k, f)) fs"
proof (induction fs arbitrary: parts)
  case Nil
  then show ?case by simp
next
  case (Cons f fs)
  from Cons.prems have "f \<in> fst ` set (dir_of w k)" by simp
  then have "map_of (dir_of w k) f \<noteq> None"
    by (simp add: map_of_eq_None_iff)
  then obtain b where b: "map_of (dir_of w k) f = Some b" by blast
  from Cons.prems have sub: "set fs \<subseteq> fst ` set (dir_of w k)" by simp
  show ?case using b Cons.IH [OF sub] by simp
qed

text \<open>
  C10. When \<^verbatim>\<open>send_photos_by_email\<close> reports success with \<open>photos_sent = n\<close> for a group
  (the first row of that id), then \<open>n\<close> is at most 10; exactly one message went out, to the
  recipient, with \<open>n\<close> attachments; the attached files are the first ten names of the
  folder's sorted image listing without those that could not be opened; and the delivery
  row logged carries the same count.
\<close>

theorem send_photos_by_email_at_most_ten:
  assumes "send_photos_by_email e w user_id person_id recipient = (Success n, w')"
    and "filter (\<lambda>p. p_id p = person_id) (persons w) = person # rest"
  shows "n \<le> 10 \<and>
         (\<exists>m. outbox w' = outbox w @ [m] \<and> m_to m = recipient \<and>
              length (m_attachments m) = n \<and>
              map fst (m_attachments m) =
                filter (\<lambda>f. \<not> open_fails e (user_id, p_folder_name person, f))
                  (take 10 (list_images w (user_id, p_folder_name person)))) \<and>
         (\<exists>d. delivery_history w' = delivery_history w @ [d] \<and> d_photo_count d = n)"
proof -
  let ?k = "(user_id, p_folder_name person)"
  let ?w1 = "folder_disk w user_id (p_folder_name person)"
  let ?fs = "take 10 (list_images w ?k)"
  let ?parts = "attach_files e ?w1 ?k ?fs []"
  from assms have n: "n = length ?parts"
    and w': "w' = log_delivery (?w1\<lparr>outbox := outbox ?w1 @
                     [\<lparr>m_to = recipient, m_attachments = ?parts\<rparr>]\<rparr>)
                    user_id person_id recipient (length ?parts) ''sent'' []"
    by (auto simp: send_photos_by_email_def Let_def split: if_splits option.splits)
  have "length ?parts \<le> 0 + length ?fs"
    using attach_files_length [of e ?w1 ?k ?fs "[]"] by simp
  then have le: "n \<le> 10" using n by simp
  have "set ?fs \<subseteq> fst ` set (dir_of ?w1 ?k)"
    using set_list_images [of w ?k] by (auto dest: in_set_takeD)
  then have names: "map fst ?parts =
      filter (\<lambda>f. \<not> open_fails e (user_id, p_folder_name person, f)) ?fs"
    using attach_files_names [of ?fs ?w1 ?k e "[]"] by simp
  show ?thesis using le n names by (simp add: w' log_delivery_def)
qed

text \<open>The folder lists twelve images and one of the first ten cannot be opened: nine are
  sent.\<close>

theorem send_photos_by_email_at_most_ten_witness:
  "fst (send_photos_by_email (env0\<lparr>open_fails := (\<lambda>d. d = (''u1'', ''trip'', ''c.jpg''))\<rparr>)
             album_world ''u1'' ''g1'' ''a@b.c'') = Success 9 \<and> (9::nat) \<le> 10 \<and>
   length (list_images album_world (''u1'', ''trip'')) = 12"
proof -
  let ?e = "env0\<lparr>open_fails := (\<lambda>d. d = (''u1'', ''trip'', ''c.jpg''))\<rparr>"
  let ?r = "send_photos_by_email ?e album_world ''u1'' ''g1'' ''a@b.c''"
  have a: "fst ?r = Success 9" by code_simp
  then have h1: "?r = (Success 9, snd ?r)" by (metis prod.collapse)
  have h2: "filter (\<lambda>p. p_id p = ''g1'') (persons album_world) = trip # []"
    by (simp add: album_world_def trip_def)
  have l: "length (list_images album_world (''u1'', ''trip'')) = 12" by code_simp
  from send_photos_by_email_at_most_ten [OF h1 h2] a l show ?thesis by simp
qed

subsection \<open>Scene labels\<close>

lemma lower_char_not_upper: "lower_char c \<notin> set ascii_uppercase"
  by (simp add: lower_char_def ascii_uppercase_def ascii_lowercase_def)

lemma is_word_underscore: "is_word CHR ''_''"
  by (simp add: is_word_def)

lemma strip_chars_decomp:
  "\<exists>pre post. s = pre @ strip_chars P s @ post \<and> (\<forall>c \<in> set pre. P c) \<and> (\<forall>c \<in> set post. P c)"
proof -
  let ?t = "dropWhile P s"
  have a: "s = takeWhile P s @ ?t" by simp
  have "rev (dropWhile P (rev ?t)) @ rev (takeWhile P (rev ?t)) =
          rev (takeWhile P (rev ?t) @ dropWhile P (rev ?t))"
    by (simp only: rev_append)
  also have "\<dots> = rev (rev ?t)" by (simp only: takeWhile_dropWhile_id)
  finally have b: "?t = strip_chars P s @ rev (takeWhile P (rev ?t))"
    by (simp add: strip_chars_def)
  have c: "\<forall>c \<in> set (takeWhile P s). P c" by (auto dest: set_takeWhileD)
  have d: "\<forall>c \<in> set (rev (takeWhile P (rev ?t))). P c" by (auto dest: set_takeWhileD)
  from a b have "s = takeWhile P s @ strip_chars P s @ rev (takeWhile P (rev ?t))" by simp
  with c d show ?thesis by blast
qed

lemma strip_chars_length: "length (strip_chars P s) \<le> length s"
proof -
  have "length (dropWhile P (rev (dropWhile P s))) \<le> length (rev (dropWhile P s))"
    by (rule length_dropWhile_le)
  also have "\<dots> \<le> length s" by (simp add: length_dropWhile_le)
  finally show ?thesis by (simp add: strip_chars_def)
qed

lemma strip_chars_set: "set (strip_chars P s) \<subseteq> set s"
  by (auto simp: strip_chars_def dest!: set_dropWhileD)

lemma strip_chars_hd: "strip_chars P s \<noteq> [] \<Longrightarrow> \<not> P (hd (strip_chars P s))"
proof -
  assume ne: "strip_chars P s \<noteq> []"
  let ?t = "dropWhile P s"
  let ?u = "dropWhile P (rev ?t)"
  from ne have une: "?u \<noteq> []" by (simp add: strip_chars_def)
  have "hd (strip_chars P s) = last ?u" using une by (simp add: strip_chars_def hd_rev)
  also have "last ?u = last (rev ?t)"
    using une by (metis append_Nil2 last_appendR takeWhile_dropWhile_id)
  also have "\<dots> = hd ?t" using une by (metis dropWhile.simps(1) last_rev rev_is_Nil_conv)
  finally have "hd (strip_chars P s) = hd ?t" .
  moreover have "?t \<noteq> []"
    using une by (metis dropWhile.simps(1) rev.simps(1))
  ultimately show ?thesis by (simp add: hd_dropWhile)
qed

lemma strip_chars_last: "strip_chars P s \<noteq> [] \<Longrightarrow> \<not> P (last (strip_chars P s))"
proof -
  assume ne: "strip_chars P s \<noteq> []"
  let ?u = "dropWhile P (rev (dropWhile P s))"
  from ne have une: "?u \<noteq> []" by (simp add: strip_chars_def)
  have "last (strip_chars P s) = hd ?u" using une by (simp add: strip_chars_def last_rev)
  then show ?thesis using une by (simp add: hd_dropWhile)
qed

lemma groq_slug_alt:
  "groq_slug content = (let slug = strip_chars (\<lambda>c. c = CHR ''_'') (sanitize content)
                        in if slug = [] then ''uncategorised'' else slug)"
  by (simp add: groq_slug_def sanitize_def Let_def)

lemma sanitize_chars: "c \<in> set (sanitize content) \<Longrightarrow> is_word c \<and> c \<notin> set ascii_uppercase"
  by (auto simp: sanitize_def py_lower_def is_word_underscore lower_char_not_upper
           dest!: in_set_takeD split: if_splits) (simp add: ascii_uppercase_def)

lemma fallback_chars: "c \<in> set ''uncategorised'' \<Longrightarrow> is_word c \<and> c \<notin> set ascii_uppercase"
  by (auto simp: is_word_def ascii_uppercase_def ascii_lowercase_def digits_def)

lemma groq_slug_length: "length (groq_slug content) \<le> 40"
proof -
  have "length (strip_chars (\<lambda>c. c = CHR ''_'') (sanitize content)) \<le> length (sanitize content)"
    by (rule strip_chars_length)
  also have "\<dots> \<le> 40" by (simp add: sanitize_def)
  finally show ?thesis by (simp add: groq_slug_alt Let_def)
qed

lemma groq_slug_nonempty: "groq_slug content \<noteq> []"
  by (simp add: groq_slug_alt Let_def)

lemma groq_slug_chars: "c \<in> set (groq_slug content) \<Longrightarrow> is_word c \<and> c \<notin> set ascii_uppercase"
proof (cases "strip_chars (\<lambda>c. c = CHR ''_'') (sanitize content) = []")
  case True
  assume "c \<in> set (groq_slug content)"
  with True have "c \<in> set ''uncategorised''" by (simp add: groq_slug_alt Let_def)
  then show ?thesis by (rule fallback_chars)
next
  case False
  assume "c \<in> set (groq_slug content)"
  with False have "c \<in> set (strip_chars (\<lambda>c. c = CHR ''_'') (sanitize content))"
    by (simp add: groq_slug_alt Let_def)
  then have "c \<in> set (sanitize content)" using strip_chars_set by blast
  then show ?thesis by (rule sanitize_chars)
qed

lemma groq_slug_ends: "hd (groq_slug content) \<noteq> CHR ''_'' \<and> last (groq_slug content) \<noteq> CHR ''_''"
proof (cases "strip_chars (\<lambda>c. c = CHR ''_'') (sanitize content) = []")
  case True
  then show ?thesis by (simp add: groq_slug_alt Let_def)
next
  case False
  then show ?thesis
    using strip_chars_hd [OF False] strip_chars_last [OF False]
    by (simp add: groq_slug_alt Let_def)
qed

lemma uuid4_tables [simp]:
  "persons (snd (uuid4 w)) = persons w"
  "photos (snd (uuid4 w)) = photos w"
  "photo_persons (snd (uuid4 w)) = photo_persons w"
  "files (snd (uuid4 w)) = files w"
  "folders (snd (uuid4 w)) = folders w"
  "dir_of (snd (uuid4 w)) k = dir_of w k"
  by (simp_all add: uuid4_def dir_of_def)

lemma filter_Cons_hd: "filter P xs = y # ys \<Longrightarrow> P y \<and> y \<in> set xs"
proof -
  assume "filter P xs = y # ys"
  then have "y \<in> set (filter P xs)" by simp
  then show ?thesis by simp
qed

lemma find_or_create_scene_person_spec:
  assumes "find_or_create_scene_person w u slug = (p, w')"
  shows "p_folder_name p = slug \<and> p_user_id p = u \<and>
         photos w' = photos w \<and> photo_persons w' = photo_persons w \<and> files w' = files w \<and>
         (persons w' = persons w \<and> p \<in> set (persons w) \<or>
          persons w' = persons w @ [p] \<and> p_embedding p = Null \<and>
          (\<forall>q \<in> set (persons w). \<not> (p_user_id q = u \<and> p_folder_name q = slug)))"
proof (cases "filter (\<lambda>p. p_user_id p = u \<and> p_folder_name p = slug) (persons w)")
  case Nil
  then have none: "\<forall>q \<in> set (persons w). \<not> (p_user_id q = u \<and> p_folder_name q = slug)"
    by (simp add: filter_empty_conv)
  from assms Nil show ?thesis
    using none by (auto simp: find_or_create_scene_person_def Let_def split_beta)
next
  case (Cons y ys)
  from filter_Cons_hd [OF Cons] have "p_user_id y = u \<and> p_folder_name y = slug \<and> y \<in> set (persons w)"
    by simp
  with assms Cons show ?thesis
    by (auto simp: find_or_create_scene_person_def)
qed

lemma copy_to_folder_tables [simp]:
  "persons (snd (copy_to_folder e w u f src n)) = persons w"
  "photos (snd (copy_to_folder e w u f src n)) = photos w"
  "photo_persons (snd (copy_to_folder e w u f src n)) = photo_persons w"
  "files (snd (copy_to_folder e w u f src n)) = files w"
  by (simp_all add: copy_to_folder_def Let_def split: option.splits)

lemma copy_to_folder_ok:
  "files w src = Some b \<Longrightarrow> \<not> copy_fails e (u, f, n) \<Longrightarrow>
   fst (copy_to_folder e w u f src n) = Inr ()"
  by (simp add: copy_to_folder_def Let_def)

lemma groq_describe_files:
  "files w' = files w \<Longrightarrow> groq_describe_for_folder e w' path = groq_describe_for_folder e w path"
  by (simp add: groq_describe_for_folder_def)

lemma groq_describe_cases:
  "groq_describe_for_folder e w path = ''uncategorised'' \<or>
   (\<exists>content. groq e path = Some content \<and> groq_describe_for_folder e w path = groq_slug content)"
  by (auto simp: groq_describe_for_folder_def split: option.splits)

lemma scene_branch:
  assumes "extract_embeddings e image_path = []"
    and "files w image_path = Some b"
    and "\<not> copy_fails e (user_id, groq_describe_for_folder e w image_path, filename)"
  shows "\<exists>r w' p. process_uploaded_image e w user_id image_path filename = (Inr r, w') \<and>
           r_persons r = [ref_of p] \<and> r_faces_detected r = 0 \<and>
           p_folder_name p = groq_describe_for_folder e w image_path \<and> p_user_id p = user_id \<and>
           (persons w' = persons w \<and> p \<in> set (persons w) \<or>
            persons w' = persons w @ [p] \<and> p_embedding p = Null \<and>
            (\<forall>q \<in> set (persons w). \<not> (p_user_id q = user_id \<and>
                 p_folder_name q = groq_describe_for_folder e w image_path))) \<and>
           photo_persons w' = photo_persons w @
             [\<lparr>pp_photo_id = r_photo_id r, pp_person_id = p_id p\<rparr>]"
proof -
  let ?slug = "groq_describe_for_folder e w image_path"
  obtain photo_id w1 where u: "uuid4 w = (photo_id, w1)" by (cases "uuid4 w")
  define w2 where "w2 = w1\<lparr>photos := photos w1 @ [\<lparr>ph_id = photo_id, ph_user_id = user_id,
                          ph_filename = filename, ph_filepath = filename\<rparr>]\<rparr>"
  from u have w1: "persons w1 = persons w" "photo_persons w1 = photo_persons w" "files w1 = files w"
    using uuid4_tables [of w] by simp_all
  have w2: "persons w2 = persons w" "photo_persons w2 = photo_persons w" "files w2 = files w"
    by (simp_all add: w2_def w1)
  have slug2: "groq_describe_for_folder e w2 image_path = ?slug"
    by (rule groq_describe_files) (simp add: w2)
  obtain p w3 where f: "find_or_create_scene_person w2 user_id ?slug = (p, w3)"
    by (cases "find_or_create_scene_person w2 user_id ?slug")
  note sp = find_or_create_scene_person_spec [OF f]
  obtain res w4 where c: "copy_to_folder e w3 user_id (p_folder_name p) image_path filename = (res, w4)"
    by (cases "copy_to_folder e w3 user_id (p_folder_name p) image_path filename")
  have f3: "files w3 image_path = Some b" using sp assms(2) by (simp add: w2)
  have nf: "\<not> copy_fails e (user_id, p_folder_name p, filename)" using sp assms(3) by simp
  have "res = Inr ()" using copy_to_folder_ok [OF f3 nf] c by simp
  have t4: "persons w4 = persons w3" "photo_persons w4 = photo_persons w3"
    using copy_to_folder_tables [of e w3 user_id "p_folder_name p" image_path filename] c by simp_all
  define r where "r = \<lparr>r_filename = filename, r_faces_detected = 0, r_persons = [ref_of p],
            r_photo_id = photo_id, r_method = ''groq_vision''\<rparr>"
  define w5 where "w5 = link w4 photo_id (p_id p)"
  have run: "process_uploaded_image e w user_id image_path filename = (Inr r, w5)"
    using u assms(1) f c \<open>res = Inr ()\<close>
    by (simp add: process_uploaded_image_def Let_def slug2 w2_def [symmetric] r_def w5_def)
  have r: "r_persons r = [ref_of p]" "r_faces_detected r = 0" "r_photo_id r = photo_id"
    by (simp_all add: r_def)
  have w5: "photo_persons w5 = photo_persons w @ [\<lparr>pp_photo_id = photo_id, pp_person_id = p_id p\<rparr>]"
    "persons w5 = persons w3"
    using sp by (simp_all add: w5_def link_def t4 w2)
  have "process_uploaded_image e w user_id image_path filename = (Inr r, w5) \<and>
           r_persons r = [ref_of p] \<and> r_faces_detected r = 0 \<and>
           p_folder_name p = ?slug \<and> p_user_id p = user_id \<and>
           (persons w5 = persons w \<and> p \<in> set (persons w) \<or>
            persons w5 = persons w @ [p] \<and> p_embedding p = Null \<and>
            (\<forall>q \<in> set (persons w). \<not> (p_user_id q = user_id \<and> p_folder_name q = ?slug))) \<and>
           photo_persons w5 = photo_persons w @
             [\<lparr>pp_photo_id = r_photo_id r, pp_person_id = p_id p\<rparr>]"
    using sp run r w5 by (simp add: w2)
  then show ?thesis by blast
qed

lemma strip_chars_Nil_iff: "strip_chars P s = [] \<longleftrightarrow> (\<forall>c \<in> set s. P c)"
proof
  assume "strip_chars P s = []"
  then have "dropWhile P (rev (dropWhile P s)) = []"
    by (simp only: strip_chars_def rev_is_Nil_conv)
  then have all: "\<forall>c \<in> set (dropWhile P s). P c"
    by (simp only: dropWhile_eq_Nil_conv set_rev)
  have "dropWhile P s = []"
  proof (rule ccontr)
    assume ne: "dropWhile P s \<noteq> []"
    then have "\<not> P (hd (dropWhile P s))" by (rule hd_dropWhile)
    moreover have "hd (dropWhile P s) \<in> set (dropWhile P s)" using ne by (rule hd_in_set)
    ultimately show False using all by blast
  qed
  then show "\<forall>c \<in> set s. P c" by (simp only: dropWhile_eq_Nil_conv)
next
  assume "\<forall>c \<in> set s. P c"
  then have "dropWhile P s = []" by (simp only: dropWhile_eq_Nil_conv)
  then show "strip_chars P s = []" by (simp only: strip_chars_def rev.simps dropWhile.simps)
qed

lemma groq_slug_segment:
  "if \<forall>c \<in> set (sanitize content). c = CHR ''_'' then groq_slug content = ''uncategorised''
   else \<exists>pre post. sanitize content = pre @ groq_slug content @ post \<and>
          (\<forall>c \<in> set pre. c = CHR ''_'') \<and> (\<forall>c \<in> set post. c = CHR ''_'')"
proof (cases "\<forall>c \<in> set (sanitize content). c = CHR ''_''")
  case True
  then have "strip_chars (\<lambda>c. c = CHR ''_'') (sanitize content) = []"
    by (simp add: strip_chars_Nil_iff)
  with True show ?thesis by (simp add: groq_slug_alt)
next
  case False
  then have "strip_chars (\<lambda>c. c = CHR ''_'') (sanitize content) \<noteq> []"
    by (simp add: strip_chars_Nil_iff)
  then have "groq_slug content = strip_chars (\<lambda>c. c = CHR ''_'') (sanitize content)"
    by (simp add: groq_slug_alt)
  with strip_chars_decomp [of "sanitize content" "\<lambda>c. c = CHR ''_''"]
  have ex: "\<exists>pre post. sanitize content = pre @ groq_slug content @ post \<and>
          (\<forall>c \<in> set pre. c = CHR ''_'') \<and> (\<forall>c \<in> set post. c = CHR ''_'')"
    by simp
  show ?thesis by (subst if_not_P [OF False]) (rule ex)
qed

lemma is_slug_groq_slug: "is_slug (groq_slug content)"
  using groq_slug_length [of content] groq_slug_nonempty [of content] groq_slug_ends [of content]
    groq_slug_chars [of _ content]
  by (simp add: is_slug_def)

lemma is_slug_fallback: "is_slug ''uncategorised''"
  using fallback_chars by (simp add: is_slug_def)

lemma is_slug_describe: "is_slug (groq_describe_for_folder e w path)"
  using groq_describe_cases [of e w path] is_slug_groq_slug is_slug_fallback by auto

text \<open>
  C2 (as amended). An image with no detected face, whose file can be read and copied, is
  processed without error and attached to exactly one group, whose folder key is the slug
  of the scene label. The slug is not empty, has at most 40 characters, all of them word
  characters and none upper case, and neither starts nor ends with the separator. It is
  the fallback \<^verbatim>\<open>uncategorised\<close> when the labeler fails or when nothing but separators
  is left of its label; otherwise it is the label lower-cased, with every character that
  is not a word character replaced by one separator each (a run of them gives a run of
  separators), cut to 40 characters and without the separators at both ends. The group is
  the owner's first existing group with that folder key, or a new one appended to the
  table when the owner has none.
\<close>

theorem scene_label_slug:
  assumes "extract_embeddings e image_path = []"
    and "files w image_path = Some b"
    and "\<not> copy_fails e (user_id, groq_describe_for_folder e w image_path, filename)"
  shows "\<exists>r w' p slug. process_uploaded_image e w user_id image_path filename = (Inr r, w') \<and>
           slug = groq_describe_for_folder e w image_path \<and> is_slug slug \<and>
           (case groq e image_path of
              None \<Rightarrow> slug = ''uncategorised''
            | Some content \<Rightarrow>
                if \<forall>c \<in> set (sanitize content). c = CHR ''_'' then slug = ''uncategorised''
                else \<exists>pre post. sanitize content = pre @ slug @ post \<and>
                       (\<forall>c \<in> set pre. c = CHR ''_'') \<and> (\<forall>c \<in> set post. c = CHR ''_'')) \<and>
           r_persons r = [ref_of p] \<and> p_folder_name p = slug \<and> p_user_id p = user_id \<and>
           (persons w' = persons w \<and> p \<in> set (persons w) \<or>
            persons w' = persons w @ [p] \<and>
            (\<forall>q \<in> set (persons w). \<not> (p_user_id q = user_id \<and> p_folder_name q = slug)))"
proof -
  let ?slug = "groq_describe_for_folder e w image_path"
  from scene_branch [OF assms] obtain r w' p where
    run: "process_uploaded_image e w user_id image_path filename = (Inr r, w')"
    and rp: "r_persons r = [ref_of p]" "p_folder_name p = ?slug" "p_user_id p = user_id"
    and grp: "persons w' = persons w \<and> p \<in> set (persons w) \<or>
            persons w' = persons w @ [p] \<and> p_embedding p = Null \<and>
            (\<forall>q \<in> set (persons w). \<not> (p_user_id q = user_id \<and> p_folder_name q = ?slug))"
    by blast
  have seg: "case groq e image_path of
              None \<Rightarrow> ?slug = ''uncategorised''
            | Some content \<Rightarrow>
                if \<forall>c \<in> set (sanitize content). c = CHR ''_'' then ?slug = ''uncategorised''
                else \<exists>pre post. sanitize content = pre @ ?slug @ post \<and>
                       (\<forall>c \<in> set pre. c = CHR ''_'') \<and> (\<forall>c \<in> set post. c = CHR ''_'')"
  proof (cases "groq e image_path")
    case None
    then show ?thesis using assms(2) by (simp add: groq_describe_for_folder_def)
  next
    case (Some content)
    then have "?slug = groq_slug content" using assms(2) by (simp add: groq_describe_for_folder_def)
    then show ?thesis using Some groq_slug_segment [of content] by simp
  qed
  have grp': "persons w' = persons w \<and> p \<in> set (persons w) \<or>
            persons w' = persons w @ [p] \<and>
            (\<forall>q \<in> set (persons w). \<not> (p_user_id q = user_id \<and> p_folder_name q = ?slug))"
    using grp by blast
  from run rp grp' seg is_slug_describe [of e w image_path] show ?thesis by blast
qed

text \<open>The label \<^verbatim>\<open>Beach Sunset!!\<close> gives the folder key \<^verbatim>\<open>beach_sunset\<close> and one
  new group.\<close>

theorem scene_label_slug_witness:
  "\<exists>r w' p. process_uploaded_image env0 beach_world ''u1'' ''u1/b.jpg'' ''b.jpg'' = (Inr r, w') \<and>
      r_persons r = [ref_of p] \<and> p_folder_name p = ''beach_sunset'' \<and> persons w' = [p]"
proof -
  have h1: "extract_embeddings env0 ''u1/b.jpg'' = []"
    by (simp add: extract_embeddings_def env0_def)
  have h2: "files beach_world ''u1/b.jpg'' = Some ''data''"
    by (simp add: beach_world_def)
  have h3: "\<not> copy_fails env0 (''u1'', groq_describe_for_folder env0 beach_world ''u1/b.jpg'', ''b.jpg'')"
    by (simp add: env0_def)
  have slug: "groq_describe_for_folder env0 beach_world ''u1/b.jpg'' = ''beach_sunset''"
    by code_simp
  have ps: "persons beach_world = []" by (simp add: beach_world_def world0_def)
  from scene_label_slug [OF h1 h2 h3] show ?thesis
    unfolding slug ps by auto
qed

text \<open>C2 as stated fails: two non-word characters in a row are not collapsed to a single
  separator.\<close>

theorem groq_slug_keeps_runs: "groq_slug ''sun  set'' = ''sun__set''"
  by code_simp

subsection \<open>Similarity resolution\<close>




lemma create_face_person_spec:
  "create_face_person w user_id e = (p, w') \<Longrightarrow>
     p_name p = ''Unknown'' \<and> p_user_id p = user_id \<and> p_id p = uuid_src w (uuid_ctr w) \<and>
     p_folder_name p = ''person_'' @ take 8 (p_id p) \<and> p_embedding p = Dict (Some e) \<and>
     persons w' = persons w @ [p] \<and> photos w' = photos w \<and> photo_persons w' = photo_persons w \<and>
     files w' = files w"
  by (auto simp: create_face_person_def uuid4_def Let_def)

lemma match_loop_best:
  "match_loop e ps best score = Inr (b', s') \<Longrightarrow>
   b' = best \<or> (\<exists>g. b' = Some g \<and> g \<in> set ps \<and> stored_vector (p_embedding g) \<noteq> None)"
proof (induction ps arbitrary: best score)
  case Nil
  then show ?case by simp
next
  case (Cons p ps)
  show ?case
  proof (cases "stored_vector (p_embedding p)")
    case None
    with Cons.prems have "match_loop e ps best score = Inr (b', s')" by simp
    from Cons.IH [OF this] show ?thesis by auto
  next
    case (Some v)
    show ?thesis
    proof (cases "cosine_similarity e v")
      case (Inl err)
      with Cons.prems Some show ?thesis by simp
    next
      case (Inr s)
      show ?thesis
      proof (cases "s > score")
        case True
        with Cons.prems Some Inr have "match_loop e ps (Some p) s = Inr (b', s')" by simp
        from Cons.IH [OF this] Some show ?thesis by auto
      next
        case False
        with Cons.prems Some Inr have "match_loop e ps best score = Inr (b', s')" by simp
        from Cons.IH [OF this] show ?thesis by auto
      qed
    qed
  qed
qed

lemma find_matching_person_candidate:
  assumes "find_matching_person w user_id e = Inr (Some g)"
  shows "g \<in> set (candidates w user_id)"
proof -
  let ?rows = "filter (\<lambda>p. p_user_id p = user_id) (persons w)"
  from assms obtain b' s' where ml: "match_loop e ?rows None (- 1) = Inr (b', s')"
    and g: "(if s' \<ge> 1 - DEEPFACE_DISTANCE_THRESHOLD then b' else None) = Some g"
    by (auto simp: find_matching_person_def Let_def split: sum.splits)
  from g have "b' = Some g" by (simp split: if_splits)
  with match_loop_best [OF ml] show ?thesis by (auto simp: candidates_def)
qed

lemma resolve_spec:
  assumes "find_matching_person w user_id emb = Inr found" and "emb \<noteq> []"
    and "(case found of Some p \<Rightarrow> (p, w) | None \<Rightarrow> create_face_person w user_id emb) = (person, w1)"
  shows "person \<in> set (persons w1) \<and> p_user_id person = user_id \<and>
         stored_vector (p_embedding person) \<noteq> None \<and>
         (\<exists>added. persons w1 = persons w @ added) \<and> photos w1 = photos w \<and>
         photo_persons w1 = photo_persons w \<and> files w1 = files w"
proof (cases found)
  case None
  with assms(3) have c: "create_face_person w user_id emb = (person, w1)" by simp
  from create_face_person_spec [OF c] assms(2) show ?thesis
    by (simp add: stored_vector_def)
next
  case (Some p)
  with assms(3) have eq: "person = p" "w1 = w" by simp_all
  from find_matching_person_candidate [of w user_id emb p] assms(1) Some
  have "p \<in> set (candidates w user_id)" by simp
  then show ?thesis using eq by (simp add: candidates_def)
qed

lemma link_tables [simp]:
  "persons (link w a b) = persons w"
  "photos (link w a b) = photos w"
  "files (link w a b) = files w"
  "folders (link w a b) = folders w"
  "photo_persons (link w a b) = photo_persons w @ [\<lparr>pp_photo_id = a, pp_person_id = b\<rparr>]"
  by (simp_all add: link_def)

lemma ref_id_ref_of [simp]: "ref_id (ref_of p) = p_id p"
  by (simp add: ref_of_def)

lemma face_loop_spec:
  assumes "face_loop e user_id image_path filename photo_id faces seen acc w = (Inr acc', w')"
  shows "\<exists>new added. acc' = acc @ new \<and> distinct (map ref_id new) \<and>
           set (map ref_id new) \<inter> seen = {} \<and>
           photo_persons w' = photo_persons w @ map (link_row photo_id) new \<and>
           (\<forall>r \<in> set new. \<exists>p \<in> set (persons w'). r = ref_of p \<and> p_user_id p = user_id \<and>
                stored_vector (p_embedding p) \<noteq> None) \<and>
           persons w' = persons w @ added \<and> photos w' = photos w"
  using assms
proof (induction faces arbitrary: seen acc w)
  case Nil
  then show ?case by simp
next
  case (Cons face faces)
  define emb where "emb = (case face of None \<Rightarrow> [] | Some v \<Rightarrow> v)"
  show ?case
  proof (cases "emb = []")
    case True
    with Cons.prems have "face_loop e user_id image_path filename photo_id faces seen acc w = (Inr acc', w')"
      by (simp add: emb_def)
    from Cons.IH [OF this] show ?thesis .
  next
    case False
    from Cons.prems False obtain found where
      fm: "find_matching_person w user_id emb = Inr found"
      by (cases "find_matching_person w user_id emb") (simp_all add: emb_def)
    obtain person w1 where
      rs: "(case found of Some p \<Rightarrow> (p, w) | None \<Rightarrow> create_face_person w user_id emb) = (person, w1)"
      by (cases "(case found of Some p \<Rightarrow> (p, w) | None \<Rightarrow> create_face_person w user_id emb)")
    from resolve_spec [OF fm False rs] obtain added1 where
      p1: "person \<in> set (persons w1)" "p_user_id person = user_id"
          "stored_vector (p_embedding person) \<noteq> None"
      and w1: "persons w1 = persons w @ added1" "photos w1 = photos w"
          "photo_persons w1 = photo_persons w"
      by blast
    show ?thesis
    proof (cases "p_id person \<in> seen")
      case True
      with Cons.prems False fm rs
      have "face_loop e user_id image_path filename photo_id faces seen acc w1 = (Inr acc', w')"
        by (simp add: emb_def [symmetric])
      from Cons.IH [OF this] obtain new added where
        "acc' = acc @ new" "distinct (map ref_id new)" "set (map ref_id new) \<inter> seen = {}"
        "photo_persons w' = photo_persons w1 @ map (link_row photo_id) new"
        "\<forall>r \<in> set new. \<exists>p \<in> set (persons w'). r = ref_of p \<and> p_user_id p = user_id \<and>
                stored_vector (p_embedding p) \<noteq> None"
        "persons w' = persons w1 @ added" "photos w' = photos w1"
        by blast
      then show ?thesis using w1 by auto
    next
      case notseen: False
      obtain res w2 where
        c: "copy_to_folder e w1 user_id (p_folder_name person) image_path filename = (res, w2)"
        by (cases "copy_to_folder e w1 user_id (p_folder_name person) image_path filename")
      have t2: "persons w2 = persons w1" "photos w2 = photos w1" "photo_persons w2 = photo_persons w1"
        using copy_to_folder_tables [of e w1 user_id "p_folder_name person" image_path filename] c
        by simp_all
      from Cons.prems False fm rs notseen c obtain u where res: "res = Inr u"
        by (cases res) (simp_all add: emb_def [symmetric])
      let ?w3 = "link w2 photo_id (p_id person)"
      from Cons.prems False fm rs notseen c res
      have "face_loop e user_id image_path filename photo_id faces (insert (p_id person) seen)
              (acc @ [ref_of person]) ?w3 = (Inr acc', w')"
        by (simp add: emb_def [symmetric])
      from Cons.IH [OF this] obtain new added where
        n: "acc' = (acc @ [ref_of person]) @ new" "distinct (map ref_id new)"
        "set (map ref_id new) \<inter> insert (p_id person) seen = {}"
        "photo_persons w' = photo_persons ?w3 @ map (link_row photo_id) new"
        "\<forall>r \<in> set new. \<exists>p \<in> set (persons w'). r = ref_of p \<and> p_user_id p = user_id \<and>
                stored_vector (p_embedding p) \<noteq> None"
        "persons w' = persons ?w3 @ added" "photos w' = photos ?w3"
        by blast
      let ?new = "ref_of person # new"
      have a: "acc' = acc @ ?new" using n(1) by simp
      have b: "distinct (map ref_id ?new)" using n(2) n(3) by auto
      have d: "set (map ref_id ?new) \<inter> seen = {}" using n(3) notseen by auto
      have f: "photo_persons w' = photo_persons w @ map (link_row photo_id) ?new"
        using n(4) t2 w1 by (simp add: link_row_def)
      have g: "persons w' = persons w @ (added1 @ added)" using n(6) t2 w1 by simp
      have "person \<in> set (persons w')" using p1(1) n(6) t2 by simp
      then have h: "\<forall>r \<in> set ?new. \<exists>p \<in> set (persons w'). r = ref_of p \<and> p_user_id p = user_id \<and>
                stored_vector (p_embedding p) \<noteq> None"
        using n(5) p1 by auto
      have i: "photos w' = photos w" using n(7) t2 w1 by simp
      from a b d f g h i show ?thesis by blast
    qed
  qed
qed

subsection \<open>One upload\<close>


lemma process_uploaded_image_faces:
  assumes "process_uploaded_image e w user_id image_path filename = (Inr r, w')"
    and "extract_embeddings e image_path \<noteq> []"
  shows "\<exists>w2. persons w2 = persons w \<and> photo_persons w2 = photo_persons w \<and>
           r_photo_id r = uuid_src w (uuid_ctr w) \<and>
           face_loop e user_id image_path filename (r_photo_id r)
             (extract_embeddings e image_path) {} [] w2 = (Inr (r_persons r), w')"
proof -
  obtain photo_id w1 where u: "uuid4 w = (photo_id, w1)" by (cases "uuid4 w")
  define w2 where "w2 = w1\<lparr>photos := photos w1 @ [\<lparr>ph_id = photo_id, ph_user_id = user_id,
                          ph_filename = filename, ph_filepath = filename\<rparr>]\<rparr>"
  from u have w1: "persons w1 = persons w" "photo_persons w1 = photo_persons w"
    "photo_id = uuid_src w (uuid_ctr w)"
    by (auto simp: uuid4_def)
  have w2: "persons w2 = persons w" "photo_persons w2 = photo_persons w"
    by (simp_all add: w2_def w1)
  obtain res w3 where fl: "face_loop e user_id image_path filename photo_id
             (extract_embeddings e image_path) {} [] w2 = (res, w3)"
    by (cases "face_loop e user_id image_path filename photo_id
             (extract_embeddings e image_path) {} [] w2")
  from assms u fl have "\<exists>ps. res = Inr ps \<and> r_persons r = ps \<and> r_photo_id r = photo_id \<and> w' = w3"
    by (cases res) (auto simp: process_uploaded_image_def Let_def w2_def [symmetric])
  with fl w2 w1 show ?thesis by auto
qed

lemma process_uploaded_image_scene:
  assumes "process_uploaded_image e w user_id image_path filename = (Inr r, w')"
    and "extract_embeddings e image_path = []"
  shows "\<exists>p. r_persons r = [ref_of p] \<and> p_user_id p = user_id \<and>
           p_folder_name p = groq_describe_for_folder e w image_path \<and>
           r_photo_id r = uuid_src w (uuid_ctr w) \<and>
           photo_persons w' = photo_persons w @ [link_row (r_photo_id r) (ref_of p)] \<and>
           (persons w' = persons w \<and> p \<in> set (persons w) \<or>
            persons w' = persons w @ [p] \<and> p_embedding p = Null \<and>
            (\<forall>q \<in> set (persons w). \<not> (p_user_id q = user_id \<and>
                 p_folder_name q = groq_describe_for_folder e w image_path)))"
proof -
  let ?slug = "groq_describe_for_folder e w image_path"
  obtain photo_id w1 where u: "uuid4 w = (photo_id, w1)" by (cases "uuid4 w")
  define w2 where "w2 = w1\<lparr>photos := photos w1 @ [\<lparr>ph_id = photo_id, ph_user_id = user_id,
                          ph_filename = filename, ph_filepath = filename\<rparr>]\<rparr>"
  from u have w1: "persons w1 = persons w" "photo_persons w1 = photo_persons w" "files w1 = files w"
    "photo_id = uuid_src w (uuid_ctr w)"
    by (auto simp: uuid4_def)
  have w2: "persons w2 = persons w" "photo_persons w2 = photo_persons w" "files w2 = files w"
    by (simp_all add: w2_def w1)
  have slug2: "groq_describe_for_folder e w2 image_path = ?slug"
    by (rule groq_describe_files) (simp add: w2)
  obtain p w3 where f: "find_or_create_scene_person w2 user_id ?slug = (p, w3)"
    by (cases "find_or_create_scene_person w2 user_id ?slug")
  note sp = find_or_create_scene_person_spec [OF f]
  obtain res w4 where c: "copy_to_folder e w3 user_id (p_folder_name p) image_path filename = (res, w4)"
    by (cases "copy_to_folder e w3 user_id (p_folder_name p) image_path filename")
  have t4: "persons w4 = persons w3" "photo_persons w4 = photo_persons w3"
    using copy_to_folder_tables [of e w3 user_id "p_folder_name p" image_path filename] c by simp_all
  from assms u f c have "r_persons r = [ref_of p] \<and> r_photo_id r = photo_id \<and>
      w' = link w4 photo_id (p_id p)"
    by (cases res) (auto simp: process_uploaded_image_def Let_def slug2 w2_def [symmetric])
  then show ?thesis using sp t4 w2 w1(4) by (auto simp: link_row_def)
qed

lemma attach_links_distinct:
  assumes "process_uploaded_image e w user_id image_path filename = (Inr r, w')"
  shows "distinct (map ref_id (r_persons r)) \<and>
         photo_persons w' = photo_persons w @ map (link_row (r_photo_id r)) (r_persons r)"
proof (cases "extract_embeddings e image_path = []")
  case True
  from process_uploaded_image_scene [OF assms True] show ?thesis by auto
next
  case False
  from process_uploaded_image_faces [OF assms False] obtain w2 where
    w2: "persons w2 = persons w" "photo_persons w2 = photo_persons w"
    and fl: "face_loop e user_id image_path filename (r_photo_id r)
             (extract_embeddings e image_path) {} [] w2 = (Inr (r_persons r), w')"
    by blast
  from face_loop_spec [OF fl] w2 show ?thesis by auto
qed

lemma disk_grows_refl: "disk_grows w w"
  by (simp add: disk_grows_def)

lemma disk_grows_trans: "disk_grows w w1 \<Longrightarrow> disk_grows w1 w2 \<Longrightarrow> disk_grows w w2"
  unfolding disk_grows_def by blast

lemma disk_grows_same: "(\<And>k. dir_of w' k = dir_of w k) \<Longrightarrow> disk_grows w w'"
  by (simp add: disk_grows_def)

lemma disk_grows_exists: "disk_grows w w' \<Longrightarrow> file_exists w k n \<Longrightarrow> file_exists w' k n"
  unfolding disk_grows_def file_exists_def by blast

lemma dir_of_link [simp]: "dir_of (link w a b) k = dir_of w k"
  by (simp add: dir_of_def link_def)

lemma dir_of_upd: "dir_of (w\<lparr>folders := (folders w)(k := Some d)\<rparr>) k' = (if k' = k then d else dir_of w k')"
  by (simp add: dir_of_def)

lemma copy_to_folder_dirs:
  assumes "copy_to_folder e w u f src n = (res, w')"
  shows "dir_of w' k = dir_of w k \<or>
         (k = (u, f) \<and> n \<notin> fst ` set (dir_of w k) \<and> (\<exists>b. dir_of w' k = dir_of w k @ [(n, b)]))"
proof (cases "file_exists (folder_disk w u f) (u, f) n")
  case True
  with assms have "w' = folder_disk w u f" by (simp add: copy_to_folder_def Let_def)
  then show ?thesis by simp
next
  case False
  then have nin: "n \<notin> fst ` set (dir_of w (u, f))" by (simp add: file_exists_def)
  show ?thesis
  proof (cases "files w src")
    case None
    with assms False have "w' = folder_disk w u f" by (simp add: copy_to_folder_def Let_def)
    then show ?thesis by simp
  next
    case (Some b)
    show ?thesis
    proof (cases "copy_fails e (u, f, n)")
      case True
      with assms False Some have "w' = folder_disk w u f" by (simp add: copy_to_folder_def Let_def)
      then show ?thesis by simp
    next
      case nofail: False
      with assms False Some have "w' = (folder_disk w u f)\<lparr>folders := (folders (folder_disk w u f))((u, f) :=
                  Some (put_file (dir_of (folder_disk w u f) (u, f)) n b))\<rparr>"
        by (simp add: copy_to_folder_def Let_def)
      then have "dir_of w' k = (if k = (u, f) then put_file (dir_of w (u, f)) n b else dir_of w k)"
        by (simp add: dir_of_upd)
      then show ?thesis using nin by (auto simp: put_file_def)
    qed
  qed
qed

lemma copy_to_folder_grows:
  assumes "copy_to_folder e w u f src n = (res, w')"
  shows "disk_grows w w'"
  unfolding disk_grows_def
proof
  fix k
  from copy_to_folder_dirs [OF assms, of k]
  show "(distinct (map fst (dir_of w k)) \<longrightarrow> distinct (map fst (dir_of w' k))) \<and>
          fst ` set (dir_of w k) \<subseteq> fst ` set (dir_of w' k)"
    by auto
qed

lemma copy_to_folder_exists:
  assumes "copy_to_folder e w u f src n = (Inr x, w')"
  shows "file_exists w' (u, f) n"
proof (cases "file_exists (folder_disk w u f) (u, f) n")
  case True
  with assms have "w' = folder_disk w u f" by (simp add: copy_to_folder_def Let_def)
  with True show ?thesis by simp
next
  case False
  with assms obtain b where "w' = (folder_disk w u f)\<lparr>folders := (folders (folder_disk w u f))((u, f) :=
                  Some (put_file (dir_of (folder_disk w u f) (u, f)) n b))\<rparr>"
    by (auto simp: copy_to_folder_def Let_def split: option.splits if_splits)
  then have "dir_of w' (u, f) = put_file (dir_of w (u, f)) n b" by (simp add: dir_of_upd)
  moreover have "n \<notin> fst ` set (dir_of w (u, f))" using False by (simp add: file_exists_def)
  ultimately have "dir_of w' (u, f) = dir_of w (u, f) @ [(n, b)]" by (simp add: put_file_def)
  then show ?thesis by (simp add: file_exists_def)
qed

lemma dir_of_persons_upd [simp]: "dir_of (w\<lparr>persons := ps\<rparr>) k = dir_of w k"
  by (simp add: dir_of_def)

lemma uuid4_dir_of: "uuid4 w = (a, b) \<Longrightarrow> dir_of b k = dir_of w k"
  by (auto simp: uuid4_def dir_of_def)

lemma create_face_person_dirs: "create_face_person w u e = (p, w') \<Longrightarrow> dir_of w' k = dir_of w k"
  by (cases "uuid4 w") (auto simp: create_face_person_def Let_def uuid4_dir_of)

lemma find_or_create_scene_person_dirs:
  "find_or_create_scene_person w u s = (p, w') \<Longrightarrow> dir_of w' k = dir_of w k"
  by (cases "uuid4 w")
     (auto simp: find_or_create_scene_person_def Let_def uuid4_dir_of split: list.splits)

lemma resolve_dirs:
  "(case found of Some p \<Rightarrow> (p, w) | None \<Rightarrow> create_face_person w u emb) = (person, w1) \<Longrightarrow>
   dir_of w1 k = dir_of w k"
  by (cases found) (auto dest: create_face_person_dirs)

lemma face_loop_grows:
  "face_loop e user_id image_path filename photo_id faces seen acc w = (res, w') \<Longrightarrow> disk_grows w w'"
proof (induction faces arbitrary: seen acc w)
  case Nil
  then show ?case by (simp add: disk_grows_refl)
next
  case (Cons face faces)
  define emb where "emb = (case face of None \<Rightarrow> [] | Some v \<Rightarrow> v)"
  show ?case
  proof (cases "emb = []")
    case True
    with Cons.prems have "face_loop e user_id image_path filename photo_id faces seen acc w = (res, w')"
      by (simp add: emb_def)
    from Cons.IH [OF this] show ?thesis .
  next
    case False
    show ?thesis
    proof (cases "find_matching_person w user_id emb")
      case (Inl err)
      with Cons.prems False have "w' = w" by (simp add: emb_def [symmetric])
      then show ?thesis by (simp add: disk_grows_refl)
    next
      case (Inr found)
      obtain person w1 where
        rs: "(case found of Some p \<Rightarrow> (p, w) | None \<Rightarrow> create_face_person w user_id emb) = (person, w1)"
        by (cases "(case found of Some p \<Rightarrow> (p, w) | None \<Rightarrow> create_face_person w user_id emb)")
      have g1: "disk_grows w w1" using resolve_dirs [OF rs] by (rule disk_grows_same)
      show ?thesis
      proof (cases "p_id person \<in> seen")
        case True
        with Cons.prems False Inr rs
        have "face_loop e user_id image_path filename photo_id faces seen acc w1 = (res, w')"
          by (simp add: emb_def [symmetric])
        from Cons.IH [OF this] g1 show ?thesis by (blast intro: disk_grows_trans)
      next
        case notseen: False
        obtain cres w2 where
          c: "copy_to_folder e w1 user_id (p_folder_name person) image_path filename = (cres, w2)"
          by (cases "copy_to_folder e w1 user_id (p_folder_name person) image_path filename")
        have g2: "disk_grows w w2" using g1 copy_to_folder_grows [OF c] by (rule disk_grows_trans)
        show ?thesis
        proof (cases cres)
          case (Inl err)
          with Cons.prems False Inr rs notseen c have "w' = w2" by (simp add: emb_def [symmetric])
          with g2 show ?thesis by simp
        next
          case (Inr u)
          let ?w3 = "link w2 photo_id (p_id person)"
          from Cons.prems False \<open>find_matching_person w user_id emb = Inr found\<close> rs notseen c Inr
          have "face_loop e user_id image_path filename photo_id faces (insert (p_id person) seen)
                  (acc @ [ref_of person]) ?w3 = (res, w')"
            by (simp add: emb_def [symmetric])
          from Cons.IH [OF this] have "disk_grows ?w3 w'" .
          moreover have "disk_grows w2 ?w3" by (rule disk_grows_same) simp
          ultimately show ?thesis using g2 by (blast intro: disk_grows_trans)
        qed
      qed
    qed
  qed
qed

lemma ref_folder_ref_of [simp]: "ref_folder (ref_of p) = p_folder_name p"
  by (simp add: ref_of_def)

lemma face_loop_files:
  assumes "face_loop e user_id image_path filename photo_id faces seen acc w = (Inr acc', w')"
    and "\<forall>r \<in> set acc. file_exists w (user_id, ref_folder r) filename"
  shows "\<forall>r \<in> set acc'. file_exists w' (user_id, ref_folder r) filename"
  using assms
proof (induction faces arbitrary: seen acc w)
  case Nil
  then show ?case by simp
next
  case (Cons face faces)
  define emb where "emb = (case face of None \<Rightarrow> [] | Some v \<Rightarrow> v)"
  show ?case
  proof (cases "emb = []")
    case True
    with Cons.prems have "face_loop e user_id image_path filename photo_id faces seen acc w = (Inr acc', w')"
      by (simp add: emb_def)
    from Cons.IH [OF this Cons.prems(2)] show ?thesis .
  next
    case False
    from Cons.prems False obtain found where
      fm: "find_matching_person w user_id emb = Inr found"
      by (cases "find_matching_person w user_id emb") (simp_all add: emb_def)
    obtain person w1 where
      rs: "(case found of Some p \<Rightarrow> (p, w) | None \<Rightarrow> create_face_person w user_id emb) = (person, w1)"
      by (cases "(case found of Some p \<Rightarrow> (p, w) | None \<Rightarrow> create_face_person w user_id emb)")
    have g1: "disk_grows w w1" using resolve_dirs [OF rs] by (rule disk_grows_same)
    have acc1: "\<forall>r \<in> set acc. file_exists w1 (user_id, ref_folder r) filename"
      using Cons.prems(2) g1 by (blast intro: disk_grows_exists)
    show ?thesis
    proof (cases "p_id person \<in> seen")
      case True
      with Cons.prems False fm rs
      have "face_loop e user_id image_path filename photo_id faces seen acc w1 = (Inr acc', w')"
        by (simp add: emb_def [symmetric])
      from Cons.IH [OF this acc1] show ?thesis .
    next
      case notseen: False
      obtain cres w2 where
        c: "copy_to_folder e w1 user_id (p_folder_name person) image_path filename = (cres, w2)"
        by (cases "copy_to_folder e w1 user_id (p_folder_name person) image_path filename")
      from Cons.prems False fm rs notseen c obtain u where res: "cres = Inr u"
        by (cases cres) (simp_all add: emb_def [symmetric])
      let ?w3 = "link w2 photo_id (p_id person)"
      have g3: "disk_grows w1 ?w3"
        using copy_to_folder_grows [OF c] by (simp add: disk_grows_def)
      have ex: "file_exists ?w3 (user_id, p_folder_name person) filename"
        using copy_to_folder_exists [of e w1 user_id "p_folder_name person" image_path filename u w2]
          c res by (simp add: file_exists_def)
      have acc3: "\<forall>r \<in> set (acc @ [ref_of person]). file_exists ?w3 (user_id, ref_folder r) filename"
        using acc1 g3 ex by (auto intro: disk_grows_exists)
      from Cons.prems False fm rs notseen c res
      have "face_loop e user_id image_path filename photo_id faces (insert (p_id person) seen)
              (acc @ [ref_of person]) ?w3 = (Inr acc', w')"
        by (simp add: emb_def [symmetric])
      from Cons.IH [OF this acc3] show ?thesis .
    qed
  qed
qed

lemma process_uploaded_image_grows:
  assumes "process_uploaded_image e w user_id image_path filename = (res, w')"
  shows "disk_grows w w'"
proof -
  obtain photo_id w1 where u: "uuid4 w = (photo_id, w1)" by (cases "uuid4 w")
  define w2 where "w2 = w1\<lparr>photos := photos w1 @ [\<lparr>ph_id = photo_id, ph_user_id = user_id,
                          ph_filename = filename, ph_filepath = filename\<rparr>]\<rparr>"
  have g2: "disk_grows w w2"
    by (rule disk_grows_same) (simp add: w2_def dir_of_def uuid4_dir_of [OF u, unfolded dir_of_def])
  show ?thesis
  proof (cases "extract_embeddings e image_path = []")
    case True
    let ?slug = "groq_describe_for_folder e w2 image_path"
    obtain p w3 where f: "find_or_create_scene_person w2 user_id ?slug = (p, w3)"
      by (cases "find_or_create_scene_person w2 user_id ?slug")
    obtain cres w4 where c: "copy_to_folder e w3 user_id (p_folder_name p) image_path filename = (cres, w4)"
      by (cases "copy_to_folder e w3 user_id (p_folder_name p) image_path filename")
    have g3: "disk_grows w2 w3" using find_or_create_scene_person_dirs [OF f] by (rule disk_grows_same)
    have g4: "disk_grows w3 w4" by (rule copy_to_folder_grows [OF c])
    have "w' = w4 \<or> w' = link w4 photo_id (p_id p)"
      using assms u True f c by (cases cres) (auto simp: process_uploaded_image_def Let_def w2_def [symmetric])
    moreover have "disk_grows w4 (link w4 photo_id (p_id p))" by (rule disk_grows_same) simp
    ultimately have "disk_grows w4 w'" by (auto simp: disk_grows_refl)
    with g2 g3 g4 show ?thesis by (blast intro: disk_grows_trans)
  next
    case False
    obtain fres w3 where fl: "face_loop e user_id image_path filename photo_id
             (extract_embeddings e image_path) {} [] w2 = (fres, w3)"
      by (cases "face_loop e user_id image_path filename photo_id
             (extract_embeddings e image_path) {} [] w2")
    have "w' = w3" using assms u False fl
      by (cases fres) (auto simp: process_uploaded_image_def Let_def w2_def [symmetric])
    with face_loop_grows [OF fl] g2 show ?thesis by (blast intro: disk_grows_trans)
  qed
qed

lemma process_uploaded_image_files:
  assumes "process_uploaded_image e w user_id image_path filename = (Inr r, w')"
  shows "\<forall>ref \<in> set (r_persons r). file_exists w' (user_id, ref_folder ref) filename"
proof (cases "extract_embeddings e image_path = []")
  case True
  obtain photo_id w1 where u: "uuid4 w = (photo_id, w1)" by (cases "uuid4 w")
  define w2 where "w2 = w1\<lparr>photos := photos w1 @ [\<lparr>ph_id = photo_id, ph_user_id = user_id,
                          ph_filename = filename, ph_filepath = filename\<rparr>]\<rparr>"
  let ?slug = "groq_describe_for_folder e w2 image_path"
  obtain p w3 where f: "find_or_create_scene_person w2 user_id ?slug = (p, w3)"
    by (cases "find_or_create_scene_person w2 user_id ?slug")
  obtain cres w4 where c: "copy_to_folder e w3 user_id (p_folder_name p) image_path filename = (cres, w4)"
    by (cases "copy_to_folder e w3 user_id (p_folder_name p) image_path filename")
  from assms u True f c obtain x where
    res: "cres = Inr x" "r_persons r = [ref_of p]" "w' = link w4 photo_id (p_id p)"
    by (cases cres) (auto simp: process_uploaded_image_def Let_def w2_def [symmetric])
  from copy_to_folder_exists [of e w3 user_id "p_folder_name p" image_path filename x w4] c res(1)
  have "file_exists w4 (user_id, p_folder_name p) filename" by simp
  then show ?thesis using res by (simp add: file_exists_def)
next
  case False
  from process_uploaded_image_faces [OF assms False] obtain w2 where
    fl: "face_loop e user_id image_path filename (r_photo_id r)
             (extract_embeddings e image_path) {} [] w2 = (Inr (r_persons r), w')"
    by blast
  from face_loop_files [OF fl] show ?thesis by simp
qed

lemma distinct_count_list_one: "distinct xs \<Longrightarrow> x \<in> set xs \<Longrightarrow> count_list xs x = 1"
  by (induction xs) (auto simp: count_list_0_iff)

text \<open>
  C3. When an upload is processed, the groups it is attached to have pairwise distinct ids,
  the membership rows added are exactly one per attached group, in order, and the file is
  present in the folder of each of them; where that folder had no duplicate names before,
  it holds the file name exactly once.
\<close>

theorem attach_once_per_group:
  assumes "process_uploaded_image e w user_id image_path filename = (Inr r, w')"
  shows "distinct (map ref_id (r_persons r)) \<and>
         photo_persons w' = photo_persons w @ map (link_row (r_photo_id r)) (r_persons r) \<and>
         (\<forall>ref \<in> set (r_persons r).
            file_exists w' (user_id, ref_folder ref) filename \<and>
            (distinct (map fst (dir_of w (user_id, ref_folder ref))) \<longrightarrow>
             count_list (map fst (dir_of w' (user_id, ref_folder ref))) filename = 1))"
proof -
  have a: "distinct (map ref_id (r_persons r)) \<and>
         photo_persons w' = photo_persons w @ map (link_row (r_photo_id r)) (r_persons r)"
    by (rule attach_links_distinct [OF assms])
  have g: "disk_grows w w'" by (rule process_uploaded_image_grows [OF assms])
  have b: "\<forall>ref \<in> set (r_persons r).
            file_exists w' (user_id, ref_folder ref) filename \<and>
            (distinct (map fst (dir_of w (user_id, ref_folder ref))) \<longrightarrow>
             count_list (map fst (dir_of w' (user_id, ref_folder ref))) filename = 1)"
  proof
    fix ref assume "ref \<in> set (r_persons r)"
    with process_uploaded_image_files [OF assms]
    have ex: "file_exists w' (user_id, ref_folder ref) filename" by blast
    then have "filename \<in> set (map fst (dir_of w' (user_id, ref_folder ref)))"
      by (simp add: file_exists_def)
    moreover have "distinct (map fst (dir_of w (user_id, ref_folder ref))) \<longrightarrow>
        distinct (map fst (dir_of w' (user_id, ref_folder ref)))"
      using g by (simp add: disk_grows_def)
    ultimately have "distinct (map fst (dir_of w (user_id, ref_folder ref))) \<longrightarrow>
             count_list (map fst (dir_of w' (user_id, ref_folder ref))) filename = 1"
      using distinct_count_list_one [of "map fst (dir_of w' (user_id, ref_folder ref))" filename]
      by blast
    with ex show "file_exists w' (user_id, ref_folder ref) filename \<and>
            (distinct (map fst (dir_of w (user_id, ref_folder ref))) \<longrightarrow>
             count_list (map fst (dir_of w' (user_id, ref_folder ref))) filename = 1)"
      by blast
  qed
  from a b show ?thesis by blast
qed

text \<open>Two faces of one image resolve to the same new group: one attachment.\<close>

theorem attach_once_per_group_witness:
  "\<exists>r w'. process_uploaded_image twin_env beach_world ''u1'' ''u1/b.jpg'' ''b.jpg'' = (Inr r, w') \<and>
     r_faces_detected r = 2 \<and> map ref_id (r_persons r) = [''bbbbbbbb-0000''] \<and>
     photo_persons w' = [\<lparr>pp_photo_id = ''aaaaaaaa-0000'', pp_person_id = ''bbbbbbbb-0000''\<rparr>] \<and>
     file_exists w' (''u1'', ''person_bbbbbbbb'') ''b.jpg''"
proof -
  let ?run = "process_uploaded_image twin_env beach_world ''u1'' ''u1/b.jpg'' ''b.jpg''"
  let ?r = "\<lparr>r_filename = ''b.jpg'', r_faces_detected = 2,
       r_persons = [\<lparr>ref_name = ''Unknown'', ref_folder = ''person_bbbbbbbb'',
                     ref_id = ''bbbbbbbb-0000''\<rparr>],
       r_photo_id = ''aaaaaaaa-0000'', r_method = ''deepface''\<rparr>"
  have "fst ?run = Inr ?r"
    by (simp add: process_uploaded_image_def twin_env_def env0_def beach_world_def world0_def
       extract_embeddings_def uuid4_def Let_def find_matching_person_def create_face_person_def
       copy_to_folder_def folder_disk_def user_root_def file_exists_def dir_of_def put_file_def
       link_def ref_of_def stored_vector_def cosine_similarity_def norm2_def dot_def
       DEEPFACE_DISTANCE_THRESHOLD_def)
  then have h: "?run = (Inr ?r, snd ?run)" by (metis prod.collapse)
  have "photo_persons beach_world = []" by (simp add: beach_world_def world0_def)
  with attach_once_per_group [OF h] have
    "photo_persons (snd ?run) = [\<lparr>pp_photo_id = ''aaaaaaaa-0000'', pp_person_id = ''bbbbbbbb-0000''\<rparr>] \<and>
     file_exists (snd ?run) (''u1'', ''person_bbbbbbbb'') ''b.jpg''"
    by (simp add: link_row_def)
  with h show ?thesis by (intro exI [of _ ?r] exI [of _ "snd ?run"]) simp
qed




subsection \<open>Storing a file twice\<close>

lemma folder_disk_idem:
  "user_id \<in> user_dirs w \<Longrightarrow> folders w (user_id, f) = Some d \<Longrightarrow> folder_disk w user_id f = w"
  by (simp add: folder_disk_def user_root_def insert_absorb)

lemma folder_disk_made:
  "user_id \<in> user_dirs (folder_disk w user_id f) \<and>
   folders (folder_disk w user_id f) (user_id, f) = Some (dir_of w (user_id, f))"
  by (simp add: folder_disk_def user_root_def dir_of_def Let_def split: option.splits)

lemma copy_to_folder_made:
  assumes "copy_to_folder e w u f src n = (res, w1)"
  shows "u \<in> user_dirs w1 \<and> (\<exists>d. folders w1 (u, f) = Some d)"
proof -
  let ?w0 = "folder_disk w u f"
  from assms have "w1 = ?w0 \<or> (\<exists>d. w1 = ?w0\<lparr>folders := (folders ?w0)((u, f) := Some d)\<rparr>)"
    by (auto simp: copy_to_folder_def Let_def split: if_splits option.splits)
  then show ?thesis using folder_disk_made [of u w f] by auto
qed

lemma distinct_list_images: "distinct (map fst (dir_of w k)) \<Longrightarrow> distinct (list_images w k)"
  by (simp add: list_images_dir_of distinct_map_filter)

text \<open>
  C4. After an image has been stored into a group's folder under a file name, storing that
  file name into the same folder again (whatever the source and the faults of the disk)
  succeeds and changes nothing: the copy is skipped. When the file was there before the
  first call, no directory content changed at all. A folder without duplicate names keeps
  exactly one entry of that name, after the call and after any later upload of the same
  file name by the owner, and its image listing has no duplicates.
\<close>

theorem copy_to_folder_idempotent:
  assumes "copy_to_folder e w user_id folder_name src filename = (Inr x, w1)"
  shows "copy_to_folder e2 w1 user_id folder_name src2 filename = (Inr (), w1) \<and>
         file_exists w1 (user_id, folder_name) filename \<and>
         (file_exists w (user_id, folder_name) filename \<longrightarrow> (\<forall>k. dir_of w1 k = dir_of w k)) \<and>
         (distinct (map fst (dir_of w (user_id, folder_name))) \<longrightarrow>
            count_list (map fst (dir_of w1 (user_id, folder_name))) filename = 1 \<and>
            distinct (list_images w1 (user_id, folder_name)) \<and>
            (\<forall>e3 path res w2.
               process_uploaded_image e3 w1 user_id path filename = (res, w2) \<longrightarrow>
               count_list (map fst (dir_of w2 (user_id, folder_name))) filename = 1 \<and>
               distinct (list_images w2 (user_id, folder_name))))"
proof -
  have ex: "file_exists w1 (user_id, folder_name) filename"
    by (rule copy_to_folder_exists [OF assms])
  from copy_to_folder_made [OF assms] obtain d where
    m: "user_id \<in> user_dirs w1" "folders w1 (user_id, folder_name) = Some d" by blast
  have idem: "folder_disk w1 user_id folder_name = w1" using m by (rule folder_disk_idem)
  have again: "copy_to_folder e2 w1 user_id folder_name src2 filename = (Inr (), w1)"
    using ex by (simp add: copy_to_folder_def Let_def idem)
  have skip: "file_exists w (user_id, folder_name) filename \<longrightarrow> (\<forall>k. dir_of w1 k = dir_of w k)"
  proof
    assume "file_exists w (user_id, folder_name) filename"
    then have "file_exists (folder_disk w user_id folder_name) (user_id, folder_name) filename"
      by (simp add: file_exists_def)
    with assms have "w1 = folder_disk w user_id folder_name"
      by (simp add: copy_to_folder_def Let_def)
    then show "\<forall>k. dir_of w1 k = dir_of w k" by simp
  qed
  have g: "disk_grows w w1" by (rule copy_to_folder_grows [OF assms])
  have later: "count_list (map fst (dir_of w2 (user_id, folder_name))) filename = 1 \<and>
            distinct (list_images w2 (user_id, folder_name))"
    if d0: "distinct (map fst (dir_of w (user_id, folder_name)))" and g2: "disk_grows w1 w2" for w2
  proof -
    have gg: "disk_grows w w2" using g g2 by (rule disk_grows_trans)
    then have d2: "distinct (map fst (dir_of w2 (user_id, folder_name)))"
      using d0 by (simp add: disk_grows_def)
    have "file_exists w2 (user_id, folder_name) filename"
      using g2 ex by (rule disk_grows_exists)
    then have "filename \<in> set (map fst (dir_of w2 (user_id, folder_name)))"
      by (simp add: file_exists_def)
    with d2 have "count_list (map fst (dir_of w2 (user_id, folder_name))) filename = 1"
      by (rule distinct_count_list_one)
    with d2 show ?thesis by (simp add: distinct_list_images)
  qed
  have once: "distinct (map fst (dir_of w (user_id, folder_name))) \<longrightarrow>
            count_list (map fst (dir_of w1 (user_id, folder_name))) filename = 1 \<and>
            distinct (list_images w1 (user_id, folder_name)) \<and>
            (\<forall>e3 path res w2.
               process_uploaded_image e3 w1 user_id path filename = (res, w2) \<longrightarrow>
               count_list (map fst (dir_of w2 (user_id, folder_name))) filename = 1 \<and>
               distinct (list_images w2 (user_id, folder_name)))"
  proof
    assume d0: "distinct (map fst (dir_of w (user_id, folder_name)))"
    have a: "count_list (map fst (dir_of w1 (user_id, folder_name))) filename = 1 \<and>
            distinct (list_images w1 (user_id, folder_name))"
      using later [OF d0 disk_grows_refl] .
    have b: "\<forall>e3 path res w2.
               process_uploaded_image e3 w1 user_id path filename = (res, w2) \<longrightarrow>
               count_list (map fst (dir_of w2 (user_id, folder_name))) filename = 1 \<and>
               distinct (list_images w2 (user_id, folder_name))"
      using later [OF d0] process_uploaded_image_grows by blast
    from a b show "count_list (map fst (dir_of w1 (user_id, folder_name))) filename = 1 \<and>
            distinct (list_images w1 (user_id, folder_name)) \<and>
            (\<forall>e3 path res w2.
               process_uploaded_image e3 w1 user_id path filename = (res, w2) \<longrightarrow>
               count_list (map fst (dir_of w2 (user_id, folder_name))) filename = 1 \<and>
               distinct (list_images w2 (user_id, folder_name)))"
      by blast
  qed
  from again ex skip once show ?thesis by blast
qed

text \<open>Storing \<^verbatim>\<open>b.jpg\<close> twice: the second call returns the same world, and the
  listing has one entry.\<close>

theorem copy_to_folder_idempotent_witness:
  "\<exists>w1. copy_to_folder env0 beach_world ''u1'' ''beach_sunset'' ''u1/b.jpg'' ''b.jpg'' = (Inr (), w1) \<and>
     copy_to_folder env0 w1 ''u1'' ''beach_sunset'' ''u1/b.jpg'' ''b.jpg'' = (Inr (), w1) \<and>
     list_images w1 (''u1'', ''beach_sunset'') = [''b.jpg'']"
proof -
  let ?run = "copy_to_folder env0 beach_world ''u1'' ''beach_sunset'' ''u1/b.jpg'' ''b.jpg''"
  have "fst ?run = Inr ()"
    by (simp add: copy_to_folder_def Let_def beach_world_def world0_def env0_def file_exists_def)
  then have h: "?run = (Inr (), snd ?run)" by (metis prod.collapse)
  have l: "list_images (snd ?run) (''u1'', ''beach_sunset'') = [''b.jpg'']"
    by code_simp
  from copy_to_folder_idempotent [OF h, of env0 "''u1/b.jpg''"]
  have a: "copy_to_folder env0 (snd ?run) ''u1'' ''beach_sunset'' ''u1/b.jpg'' ''b.jpg'' =
             (Inr (), snd ?run)"
    by blast
  show ?thesis by (intro exI [of _ "snd ?run"] conjI h a l)
qed

subsection \<open>Embeddings of the attached groups\<close>





subsection \<open>Deleting a folder\<close>

lemma links_of_photo_photos_upd [simp]: "links_of_photo (w\<lparr>photos := x\<rparr>) pid = links_of_photo w pid"
  by (simp add: links_of_photo_def)

lemma delete_unlinked_spec:
  "photo_persons (delete_unlinked pids w) = photo_persons w \<and>
   persons (delete_unlinked pids w) = persons w \<and>
   folders (delete_unlinked pids w) = folders w \<and>
   user_dirs (delete_unlinked pids w) = user_dirs w \<and>
   photos (delete_unlinked pids w) =
     filter (\<lambda>ph. \<not> (ph_id ph \<in> set pids \<and> links_of_photo w (ph_id ph) = [])) (photos w)"
proof (induction pids arbitrary: w)
  case Nil
  then show ?case by simp
next
  case (Cons pid pids)
  let ?w1 = "if links_of_photo w pid = []
             then w\<lparr>photos := filter (\<lambda>ph. ph_id ph \<noteq> pid) (photos w)\<rparr> else w"
  have l: "links_of_photo ?w1 q = links_of_photo w q" for q by simp
  have t: "photo_persons ?w1 = photo_persons w" "persons ?w1 = persons w"
    "folders ?w1 = folders w" "user_dirs ?w1 = user_dirs w" by simp_all
  have p: "photos ?w1 = filter (\<lambda>ph. \<not> (ph_id ph = pid \<and> links_of_photo w pid = [])) (photos w)"
    by simp
  have "photos (delete_unlinked (pid # pids) w) =
      filter (\<lambda>ph. \<not> (ph_id ph \<in> set pids \<and> links_of_photo w (ph_id ph) = [])) (photos ?w1)"
    using Cons.IH [of ?w1] by (simp only: delete_unlinked.simps l)
  also have "\<dots> = filter (\<lambda>ph. \<not> (ph_id ph \<in> set (pid # pids) \<and> links_of_photo w (ph_id ph) = []))
                      (photos w)"
    unfolding p by (auto intro: filter_cong)
  finally have ph: "photos (delete_unlinked (pid # pids) w) =
      filter (\<lambda>ph. \<not> (ph_id ph \<in> set (pid # pids) \<and> links_of_photo w (ph_id ph) = [])) (photos w)" .
  have rest: "photo_persons (delete_unlinked (pid # pids) w) = photo_persons w \<and>
   persons (delete_unlinked (pid # pids) w) = persons w \<and>
   folders (delete_unlinked (pid # pids) w) = folders w \<and>
   user_dirs (delete_unlinked (pid # pids) w) = user_dirs w"
    using Cons.IH [of ?w1] by (simp only: delete_unlinked.simps t) 
  from ph rest show ?case by blast
qed

text \<open>
  C5. \<^verbatim>\<open>delete_folder\<close> returns false and leaves the world as it is when no group of that
  id belongs to the owner. Otherwise it returns true, and afterwards: no membership link
  references the group and all other links are kept; the Image rows deleted are exactly
  those whose links all pointed to the group, every other Image row is kept; no group row
  of that id is left and the other groups are kept; the group's directory is gone and no
  other directory changed.
\<close>

theorem delete_folder_cascade:
  "(filter (\<lambda>p. p_id p = person_id \<and> p_user_id p = user_id) (persons w) = [] \<longrightarrow>
      delete_folder w person_id user_id = (False, w)) \<and>
   (\<forall>g rest. filter (\<lambda>p. p_id p = person_id \<and> p_user_id p = user_id) (persons w) = g # rest \<longrightarrow>
      (\<exists>w'. delete_folder w person_id user_id = (True, w') \<and>
         photo_persons w' = filter (\<lambda>l. pp_person_id l \<noteq> person_id) (photo_persons w) \<and>
         photos w' = filter (\<lambda>ph. \<not> only_in_group w person_id ph) (photos w) \<and>
         persons w' = filter (\<lambda>p. p_id p \<noteq> person_id) (persons w) \<and>
         folders w' (user_id, p_folder_name g) = None \<and>
         (\<forall>k. k \<noteq> (user_id, p_folder_name g) \<longrightarrow> folders w' k = folders w k)))"
proof (intro conjI allI impI)
  assume "filter (\<lambda>p. p_id p = person_id \<and> p_user_id p = user_id) (persons w) = []"
  then show "delete_folder w person_id user_id = (False, w)"
    by (simp add: delete_folder_def)
next
  fix g rest
  assume f: "filter (\<lambda>p. p_id p = person_id \<and> p_user_id p = user_id) (persons w) = g # rest"
  define pids where "pids = map pp_photo_id (filter (\<lambda>l. pp_person_id l = person_id) (photo_persons w))"
  define w1 where "w1 = w\<lparr>photo_persons := filter (\<lambda>l. pp_person_id l \<noteq> person_id) (photo_persons w)\<rparr>"
  define w2 where "w2 = delete_unlinked pids w1"
  define w3 where "w3 = w2\<lparr>persons := filter (\<lambda>p. p_id p \<noteq> person_id) (persons w2)\<rparr>"
  define w4 where "w4 = user_root w3 user_id"
  define w5 where "w5 = w4\<lparr>folders := (folders w4)((user_id, p_folder_name g) := None)\<rparr>"
  have run: "delete_folder w person_id user_id = (True, w5)"
    using f by (simp add: delete_folder_def Let_def w5_def w4_def w3_def w2_def w1_def pids_def)
  note du = delete_unlinked_spec [of pids w1]
  have key: "(ph_id ph \<in> set pids \<and> links_of_photo w1 (ph_id ph) = []) = only_in_group w person_id ph" for ph
  proof -
    have a: "ph_id ph \<in> set pids \<longleftrightarrow> (\<exists>l \<in> set (links_of_photo w (ph_id ph)). pp_person_id l = person_id)"
      by (force simp: pids_def links_of_photo_def image_iff)
    have b: "links_of_photo w1 (ph_id ph) = [] \<longleftrightarrow>
             (\<forall>l \<in> set (links_of_photo w (ph_id ph)). pp_person_id l = person_id)"
      by (auto simp: w1_def links_of_photo_def filter_empty_conv)
    show ?thesis unfolding a b only_in_group_def by (cases "links_of_photo w (ph_id ph)") auto
  qed
  have ph: "photos w5 = filter (\<lambda>ph. \<not> only_in_group w person_id ph) (photos w)"
    using du by (simp add: w5_def w4_def w3_def w2_def user_root_def key) (simp add: w1_def)
  have pp: "photo_persons w5 = filter (\<lambda>l. pp_person_id l \<noteq> person_id) (photo_persons w)"
    using du by (simp add: w5_def w4_def w3_def w2_def user_root_def) (simp add: w1_def)
  have ps: "persons w5 = filter (\<lambda>p. p_id p \<noteq> person_id) (persons w)"
    using du by (simp add: w5_def w4_def w3_def w2_def user_root_def) (simp add: w1_def)
  have fo: "folders w5 (user_id, p_folder_name g) = None \<and>
         (\<forall>k. k \<noteq> (user_id, p_folder_name g) \<longrightarrow> folders w5 k = folders w k)"
    using du by (simp add: w5_def w4_def w3_def w2_def user_root_def) (simp add: w1_def)
  from run ph pp ps fo show "\<exists>w'. delete_folder w person_id user_id = (True, w') \<and>
         photo_persons w' = filter (\<lambda>l. pp_person_id l \<noteq> person_id) (photo_persons w) \<and>
         photos w' = filter (\<lambda>ph. \<not> only_in_group w person_id ph) (photos w) \<and>
         persons w' = filter (\<lambda>p. p_id p \<noteq> person_id) (persons w) \<and>
         folders w' (user_id, p_folder_name g) = None \<and>
         (\<forall>k. k \<noteq> (user_id, p_folder_name g) \<longrightarrow> folders w' k = folders w k)"
    by blast
qed

subsection \<open>No orphan Image rows\<close>

lemma orphans_cong:
  "photos w' = photos w \<Longrightarrow> photo_persons w' = photo_persons w \<Longrightarrow> orphans w' = orphans w"
  by (simp add: orphans_def links_of_photo_def)

lemma orphans_delete_folder:
  "set (orphans (snd (delete_folder w person_id user_id))) \<subseteq> set (orphans w)"
proof (cases "filter (\<lambda>p. p_id p = person_id \<and> p_user_id p = user_id) (persons w)")
  case Nil
  then show ?thesis by (simp add: delete_folder_def)
next
  case (Cons g rest)
  define pids where "pids = map pp_photo_id (filter (\<lambda>l. pp_person_id l = person_id) (photo_persons w))"
  define w1 where "w1 = w\<lparr>photo_persons := filter (\<lambda>l. pp_person_id l \<noteq> person_id) (photo_persons w)\<rparr>"
  define w2 where "w2 = delete_unlinked pids w1"
  let ?w' = "snd (delete_folder w person_id user_id)"
  note du = delete_unlinked_spec [of pids w1]
  have ph: "photos ?w' = filter (\<lambda>ph. \<not> (ph_id ph \<in> set pids \<and> links_of_photo w1 (ph_id ph) = [])) (photos w)"
    using Cons du by (simp add: delete_folder_def Let_def user_root_def pids_def [symmetric]
        w1_def [symmetric]) (simp add: w1_def)
  have pp: "photo_persons ?w' = filter (\<lambda>l. pp_person_id l \<noteq> person_id) (photo_persons w)"
    using Cons du by (simp add: delete_folder_def Let_def user_root_def pids_def [symmetric]
        w1_def [symmetric]) (simp add: w1_def)
  have l1: "links_of_photo ?w' q = links_of_photo w1 q" for q
    by (simp add: links_of_photo_def pp w1_def)
  show ?thesis
  proof
    fix x assume "x \<in> set (orphans ?w')"
    then have x: "x \<in> set (photos w)" "\<not> (ph_id x \<in> set pids \<and> links_of_photo w1 (ph_id x) = [])"
      "links_of_photo w1 (ph_id x) = []"
      by (auto simp: orphans_def ph l1)
    then have notin: "ph_id x \<notin> set pids" by blast
    have "links_of_photo w (ph_id x) = []"
    proof (rule ccontr)
      assume "links_of_photo w (ph_id x) \<noteq> []"
      then obtain l where l: "l \<in> set (photo_persons w)" "pp_photo_id l = ph_id x"
        by (auto simp: links_of_photo_def filter_empty_conv)
      with x(3) have "pp_person_id l = person_id"
        by (auto simp: links_of_photo_def w1_def filter_empty_conv)
      with l have "ph_id x \<in> set pids" by (force simp: pids_def image_iff)
      with notin show False by simp
    qed
    with x(1) show "x \<in> set (orphans w)" by (simp add: orphans_def)
  qed
qed

lemma orphans_unlink_photos:
  "set (orphans (unlink_photos person_id phs w)) \<subseteq> set (orphans w)"
proof (induction phs arbitrary: w)
  case Nil
  then show ?case by simp
next
  case (Cons ph phs)
  define w1 where "w1 = w\<lparr>photo_persons :=
                   filter (\<lambda>l. \<not> (pp_photo_id l = ph_id ph \<and> pp_person_id l = person_id))
                     (photo_persons w)\<rparr>"
  define w2 where "w2 = (if links_of_photo w1 (ph_id ph) = []
            then w1\<lparr>photos := filter (\<lambda>r. ph_id r \<noteq> ph_id ph) (photos w1)\<rparr> else w1)"
  have step: "set (orphans w2) \<subseteq> set (orphans w)"
  proof
    fix x assume a: "x \<in> set (orphans w2)"
    then have x2: "x \<in> set (photos w2)" "links_of_photo w2 (ph_id x) = []"
      by (simp_all add: orphans_def)
    have l2: "links_of_photo w2 q = links_of_photo w1 q" for q by (simp add: w2_def)
    have ne: "ph_id x \<noteq> ph_id ph"
    proof
      assume e: "ph_id x = ph_id ph"
      with x2(2) l2 have "links_of_photo w1 (ph_id ph) = []" by simp
      then have "photos w2 = filter (\<lambda>r. ph_id r \<noteq> ph_id ph) (photos w1)" by (simp add: w2_def)
      with x2(1) e show False by simp
    qed
    then have "links_of_photo w1 (ph_id x) = links_of_photo w (ph_id x)"
      by (auto simp: links_of_photo_def w1_def intro: filter_cong)
    with x2(2) l2 have "links_of_photo w (ph_id x) = []" by simp
    moreover have "x \<in> set (photos w)" using x2(1) by (auto simp: w2_def w1_def split: if_splits)
    ultimately show "x \<in> set (orphans w)" by (simp add: orphans_def)
  qed
  have "unlink_photos person_id (ph # phs) w = unlink_photos person_id phs w2"
    by (simp add: w2_def w1_def Let_def)
  with Cons.IH [of w2] step show ?case by auto
qed

lemma orphans_delete_photo:
  "set (orphans (snd (delete_photo_from_folder e w person_id user_id filename))) \<subseteq> set (orphans w)"
proof (cases "filter (\<lambda>p. p_id p = person_id \<and> p_user_id p = user_id) (persons w)")
  case Nil
  then show ?thesis by (simp add: delete_photo_from_folder_def)
next
  case (Cons r rs)
  let ?folder = "(user_id, p_folder_name r)"
  let ?w1 = "folder_disk w user_id (p_folder_name r)"
  show ?thesis
  proof (cases "file_exists ?w1 ?folder filename \<and> remove_fails e (user_id, p_folder_name r, filename)")
    case True
    with Cons have "snd (delete_photo_from_folder e w person_id user_id filename) = ?w1"
      by (simp add: delete_photo_from_folder_def Let_def)
    moreover have "orphans ?w1 = orphans w" by (rule orphans_cong) simp_all
    ultimately show ?thesis by simp
  next
    case False
    define w2 where "w2 = (if file_exists ?w1 ?folder filename
                             then ?w1\<lparr>folders := (folders ?w1)(?folder :=
                                       Some (remove_file (dir_of ?w1 ?folder) filename))\<rparr>
                             else ?w1)"
    have o2: "orphans w2 = orphans w" by (rule orphans_cong) (simp_all add: w2_def)
    from Cons False have "snd (delete_photo_from_folder e w person_id user_id filename) =
        unlink_photos person_id
          (filter (\<lambda>ph. ph_user_id ph = user_id \<and> ph_filename ph = filename) (photos w2)) w2"
      by (simp add: delete_photo_from_folder_def Let_def w2_def)
    with orphans_unlink_photos [of person_id _ w2] o2 show ?thesis by simp
  qed
qed

lemma dir_of_folders_upd:
  "dir_of (w\<lparr>folders := (folders w)(k := Some d)\<rparr>) k' = (if k' = k then d else dir_of w k')"
  by (simp add: dir_of_def)



lemma dir_of_photo_persons_upd [simp]: "dir_of (w\<lparr>photo_persons := x\<rparr>) k = dir_of w k"
  by (simp add: dir_of_def)


lemma relink_filter:
  assumes "\<And>l. P l \<Longrightarrow> \<not> (pp_photo_id l = pid \<and> pp_person_id l = sid)"
  shows "filter P (relink links pid sid did keep) =
         filter P (if filter (\<lambda>l. pp_photo_id l = pid \<and> pp_person_id l = did) links = []
                   then links @ [\<lparr>pp_photo_id = pid, pp_person_id = did\<rparr>] else links)"
proof -
  have fq: "filter P (filter (\<lambda>l. \<not> (pp_photo_id l = pid \<and> pp_person_id l = sid)) xs) = filter P xs"
    for xs
  proof (induction xs)
    case Nil
    then show ?case by simp
  next
    case (Cons x xs)
    then show ?case using assms [of x] by auto
  qed
  show ?thesis by (cases keep) (simp_all only: relink_def Let_def if_True if_False fq)
qed

lemma relink_dest:
  assumes "sid \<noteq> did"
  shows "length (filter (\<lambda>l. pp_photo_id l = pid \<and> pp_person_id l = did)
           (relink links pid sid did keep)) =
         max 1 (length (filter (\<lambda>l. pp_photo_id l = pid \<and> pp_person_id l = did) links))"
proof -
  let ?P = "\<lambda>l. pp_photo_id l = pid \<and> pp_person_id l = did"
  have e: "filter ?P (relink links pid sid did keep) =
         filter ?P (if filter ?P links = []
                   then links @ [\<lparr>pp_photo_id = pid, pp_person_id = did\<rparr>] else links)"
    by (rule relink_filter) (use assms in auto)
  show ?thesis
  proof (cases "filter ?P links = []")
    case True
    then show ?thesis unfolding e by simp
  next
    case False
    then have "length (filter ?P links) \<ge> 1" by (cases "filter ?P links") simp_all
    then show ?thesis unfolding e using False by (simp add: max_def)
  qed
qed



lemma relink_keeps_linked:
  assumes "sid \<noteq> did"
    and "filter (\<lambda>l. pp_photo_id l = q) (relink links pid sid did keep) = []"
  shows "filter (\<lambda>l. pp_photo_id l = q) links = []"
proof (cases "q = pid")
  case True
  have "length (filter (\<lambda>l. pp_photo_id l = pid \<and> pp_person_id l = did)
          (relink links pid sid did keep)) \<ge> 1"
    using relink_dest [OF assms(1), of pid links keep] by simp
  then obtain l where "l \<in> set (relink links pid sid did keep)" "pp_photo_id l = pid"
    by (cases "filter (\<lambda>l. pp_photo_id l = pid \<and> pp_person_id l = did)
          (relink links pid sid did keep)") (auto dest: filter_Cons_hd)
  with assms(2) True show ?thesis by (auto simp: filter_empty_conv)
next
  case False
  have "filter (\<lambda>l. pp_photo_id l = q) (relink links pid sid did keep) =
         filter (\<lambda>l. pp_photo_id l = q)
           (if filter (\<lambda>l. pp_photo_id l = pid \<and> pp_person_id l = did) links = []
                   then links @ [\<lparr>pp_photo_id = pid, pp_person_id = did\<rparr>] else links)"
    by (rule relink_filter) (use False in auto)
  with assms(2) False show ?thesis by (simp split: if_splits)
qed

lemma move_tables:
  "photos (snd (move_photo_to_folder e w u sid did fn keep)) = photos w \<and>
   (photo_persons (snd (move_photo_to_folder e w u sid did fn keep)) = photo_persons w \<or>
    (\<exists>pid. sid \<noteq> did \<and>
       photo_persons (snd (move_photo_to_folder e w u sid did fn keep)) =
         relink (photo_persons w) pid sid did keep))"
proof (cases "filter (\<lambda>p. p_id p = sid \<and> p_user_id p = u) (persons w)")
  case Nil
  then show ?thesis by (simp add: move_photo_to_folder_def)
next
  case s: (Cons s ss)
  show ?thesis
  proof (cases "filter (\<lambda>p. p_id p = did \<and> p_user_id p = u) (persons w)")
    case Nil
    with s show ?thesis by (simp add: move_photo_to_folder_def)
  next
    case d: (Cons d ds)
    show ?thesis
    proof (cases "p_folder_name s = p_folder_name d")
      case True
      with s d show ?thesis
        by (simp add: move_photo_to_folder_def Let_def split: option.splits)
    next
      case False
      have ne: "sid \<noteq> did"
      proof
        assume "sid = did"
        with s d have "s = d" by simp
        with False show False by simp
      qed
      show ?thesis
      proof (cases "filter (\<lambda>ph. ph_user_id ph = u \<and> ph_filename ph = fn) (photos w)")
        case Nil
        with s d False show ?thesis
          by (simp add: move_photo_to_folder_def Let_def split: option.splits)
      next
        case (Cons ph phs)
        with s d False ne show ?thesis
          by (auto simp: move_photo_to_folder_def Let_def relink_def link_def split: option.splits)
      qed
    qed
  qed
qed

lemma orphans_move:
  "set (orphans (snd (move_photo_to_folder e w u sid did fn keep))) \<subseteq> set (orphans w)"
proof -
  let ?w' = "snd (move_photo_to_folder e w u sid did fn keep)"
  from move_tables [of e w u sid did fn keep]
  have ph: "photos ?w' = photos w"
    and pp: "photo_persons ?w' = photo_persons w \<or>
      (\<exists>pid. sid \<noteq> did \<and> photo_persons ?w' = relink (photo_persons w) pid sid did keep)"
    by blast+
  from pp show ?thesis
  proof
    assume "photo_persons ?w' = photo_persons w"
    with ph have "orphans ?w' = orphans w" by (rule orphans_cong)
    then show ?thesis by simp
  next
    assume "\<exists>pid. sid \<noteq> did \<and> photo_persons ?w' = relink (photo_persons w) pid sid did keep"
    then obtain pid where ne: "sid \<noteq> did"
      and r: "photo_persons ?w' = relink (photo_persons w) pid sid did keep" by blast
    show ?thesis
    proof
      fix x assume "x \<in> set (orphans ?w')"
      then have x: "x \<in> set (photos w)"
        "filter (\<lambda>l. pp_photo_id l = ph_id x) (relink (photo_persons w) pid sid did keep) = []"
        by (simp_all add: orphans_def ph links_of_photo_def r)
      from relink_keeps_linked [OF ne x(2)] x(1) show "x \<in> set (orphans w)"
        by (simp add: orphans_def links_of_photo_def)
    qed
  qed
qed

text \<open>The group is the only one of two Images, and a third is also in another group: the
  two are removed, the third stays with its other link; for another owner nothing
  happens.\<close>

theorem delete_folder_cascade_witness:
  "(\<exists>w'. delete_folder shared_world ''g1'' ''u1'' = (True, w') \<and>
      map ph_id (photos w') = [''p3''] \<and>
      photo_persons w' = [\<lparr>pp_photo_id = ''p3'', pp_person_id = ''g2''\<rparr>] \<and>
      persons w' = [alice] \<and> folders w' (''u1'', ''trip'') = None \<and>
      folders w' (''u1'', ''person_11111111'') = Some [(''c.jpg'', ''C'')]) \<and>
   delete_folder shared_world ''g1'' ''u2'' = (False, shared_world)"
proof -
  have h: "filter (\<lambda>p. p_id p = ''g1'' \<and> p_user_id p = ''u1'') (persons shared_world) = trip # []"
    by (simp add: shared_world_def world0_def trip_def alice_def)
  have n: "filter (\<lambda>p. p_id p = ''g1'' \<and> p_user_id p = ''u2'') (persons shared_world) = []"
    by (simp add: shared_world_def world0_def trip_def alice_def)
  from delete_folder_cascade [of "''g1''" "''u1''" shared_world] h obtain w' where
    w': "delete_folder shared_world ''g1'' ''u1'' = (True, w')"
      "photo_persons w' = filter (\<lambda>l. pp_person_id l \<noteq> ''g1'') (photo_persons shared_world)"
      "photos w' = filter (\<lambda>ph. \<not> only_in_group shared_world ''g1'' ph) (photos shared_world)"
      "persons w' = filter (\<lambda>p. p_id p \<noteq> ''g1'') (persons shared_world)"
      "folders w' (''u1'', p_folder_name trip) = None"
      "\<forall>k. k \<noteq> (''u1'', p_folder_name trip) \<longrightarrow> folders w' k = folders shared_world k"
    by blast
  have a: "map ph_id (photos w') = [''p3'']"
    unfolding w'(3) by (simp add: shared_world_def world0_def only_in_group_def links_of_photo_def)
  have b: "photo_persons w' = [\<lparr>pp_photo_id = ''p3'', pp_person_id = ''g2''\<rparr>]"
    unfolding w'(2) by (simp add: shared_world_def world0_def)
  have c: "persons w' = [alice]"
    unfolding w'(4) by (simp add: shared_world_def world0_def trip_def alice_def)
  have d: "folders w' (''u1'', ''trip'') = None" using w'(5) by (simp add: trip_def)
  have e: "folders w' (''u1'', ''person_11111111'') = Some [(''c.jpg'', ''C'')]"
    using w'(6) by (simp add: trip_def shared_world_def world0_def)
  from delete_folder_cascade [of "''g1''" "''u2''" shared_world] n
  have f: "delete_folder shared_world ''g1'' ''u2'' = (False, shared_world)" by blast
  show ?thesis by (intro conjI exI [of _ w'] w'(1) a b c d e f)
qed

text \<open>
  C9. Deleting a folder, deleting a photo from a folder and moving a photo leave no Image
  row without a membership link that was not already without one before: whenever every
  Image row has a link before the operation, every Image row that remains has one after.
\<close>

theorem no_orphans_left:
  "set (orphans (snd (delete_folder w person_id user_id))) \<subseteq> set (orphans w) \<and>
   set (orphans (snd (delete_photo_from_folder e w person_id user_id filename))) \<subseteq> set (orphans w) \<and>
   set (orphans (snd (move_photo_to_folder e w user_id src_person_id dest_person_id filename
                        keep_in_source))) \<subseteq> set (orphans w) \<and>
   (orphans w = [] \<longrightarrow>
      orphans (snd (delete_folder w person_id user_id)) = [] \<and>
      orphans (snd (delete_photo_from_folder e w person_id user_id filename)) = [] \<and>
      orphans (snd (move_photo_to_folder e w user_id src_person_id dest_person_id filename
                      keep_in_source)) = [])"
  using orphans_delete_folder [of w person_id user_id]
    orphans_delete_photo [of e w person_id user_id filename]
    orphans_move [of e w user_id src_person_id dest_person_id filename keep_in_source]
  by auto

text \<open>In the world of the two groups each operation removes the Images that lose their last
  link and leaves none without a link.\<close>

theorem no_orphans_left_witness:
  "orphans shared_world = [] \<and>
   map ph_id (photos (snd (delete_folder shared_world ''g1'' ''u1''))) = [''p3''] \<and>
   orphans (snd (delete_folder shared_world ''g1'' ''u1'')) = [] \<and>
   map ph_id (photos (snd (delete_photo_from_folder env0 shared_world ''g1'' ''u1'' ''a.jpg''))) =
     [''p2'', ''p3''] \<and>
   orphans (snd (delete_photo_from_folder env0 shared_world ''g1'' ''u1'' ''a.jpg'')) = [] \<and>
   orphans (snd (move_photo_to_folder env0 shared_world ''u1'' ''g1'' ''g2'' ''a.jpg'' False)) = []"
proof -
  have o: "orphans shared_world = []"
    by (simp add: orphans_def links_of_photo_def shared_world_def world0_def)
  have a: "map ph_id (photos (snd (delete_folder shared_world ''g1'' ''u1''))) = [''p3'']"
    by (simp add: delete_folder_def Let_def shared_world_def world0_def trip_def alice_def
          links_of_photo_def user_root_def)
  have b: "map ph_id (photos (snd (delete_photo_from_folder env0 shared_world ''g1'' ''u1'' ''a.jpg''))) =
     [''p2'', ''p3'']"
    by (simp add: delete_photo_from_folder_def Let_def shared_world_def world0_def trip_def alice_def
          links_of_photo_def user_root_def folder_disk_def file_exists_def dir_of_def env0_def
          remove_file_def)
  from no_orphans_left [of shared_world "''g1''" "''u1''" env0 "''a.jpg''" "''g1''" "''g2''" False]
    o a b show ?thesis by simp
qed

subsection \<open>Moving a photo\<close>








subsection \<open>Upload batches\<close>








end
